theory Spec2Isabelle
  imports Main "HOL-Library.Word"
begin

section \<open>Cost-based refinement of backward references (backward\_references\_cost\_enc.c)\<close>

text \<open>
  The development follows \<^verbatim>\<open>src/enc/backward_references_cost_enc.c\<close>.
  Conventions of the embedding:
  \<^item> \<^verbatim>\<open>uint32_t\<close> is \<open>32 word\<close>; the population counts and the cost tables are lists of
    such words, and their arithmetic wraps.
  \<^item> \<^verbatim>\<open>int64_t\<close> costs and \<^verbatim>\<open>int\<close> positions are \<open>int\<close>. Signed overflow is undefined
    in C, so the model describes the executions in which it does not occur.
  \<^item> \<^verbatim>\<open>uint16_t\<close> entries of \<^verbatim>\<open>dist_array\<close> are \<open>nat\<close>, every store reduced modulo
    \<open>65536\<close>.
  \<^item> An array is a list; position \<open>i\<close> of type \<^verbatim>\<open>int\<close> is read as \<open>xs ! nat i\<close>.
  \<^item> Collaborators that live in other files (fast logarithm, colour cache, prefix coder,
    hash chain, \<^verbatim>\<open>DivRound\<close>) are parameters of the functions that call them.
\<close>

subsection \<open>Population counts to bit estimates\<close>

type_synonym uint32_t = "32 word"

text \<open>
  The first loop of \<^verbatim>\<open>ConvertPopulationCountTableToBitEstimates\<close>: it accumulates
  \<^verbatim>\<open>sum\<close> (a \<^verbatim>\<open>uint32_t\<close>) and \<^verbatim>\<open>nonzeros\<close> (an \<^verbatim>\<open>int\<close>, at most \<^verbatim>\<open>num_symbols\<close>).
\<close>

fun count_loop :: "uint32_t list \<Rightarrow> uint32_t \<Rightarrow> int \<Rightarrow> uint32_t \<times> int" where
  "count_loop [] sum32 nonzeros = (sum32, nonzeros)"
| "count_loop (c # cs) sum32 nonzeros =
     count_loop cs (sum32 + c) (if c > 0 then nonzeros + 1 else nonzeros)"

text \<open>
  \<^verbatim>\<open>num_symbols\<close> is the length of \<open>population_counts\<close>; the function returns the
  \<^verbatim>\<open>output\<close> array it fills.
\<close>

definition ConvertPopulationCountTableToBitEstimates ::
  "(uint32_t \<Rightarrow> uint32_t) \<Rightarrow> uint32_t list \<Rightarrow> uint32_t list" where
  "ConvertPopulationCountTableToBitEstimates VP8LFastLog2 population_counts =
     (case count_loop population_counts 0 0 of
        (sum32, nonzeros) \<Rightarrow>
          if nonzeros \<le> 1 then replicate (length population_counts) 0
          else let logsum = VP8LFastLog2 sum32
               in map (\<lambda>c. logsum - VP8LFastLog2 c) population_counts)"

subsection \<open>The cost model and its accessors\<close>

record CostModel =
  alpha :: "uint32_t list"
  red :: "uint32_t list"
  blue :: "uint32_t list"
  distance :: "uint32_t list"
  literal :: "uint32_t list"

definition VALUES_IN_BYTE :: nat where
  "VALUES_IN_BYTE = 256"

definition GetLiteralCost :: "CostModel \<Rightarrow> uint32_t \<Rightarrow> int" where
  "GetLiteralCost m v =
     uint (alpha m ! unat (drop_bit 24 v)) +
     uint (red m ! unat (and (drop_bit 16 v) 0xff)) +
     uint (literal m ! unat (and (drop_bit 8 v) 0xff)) +
     uint (blue m ! unat (and v 0xff))"

text \<open>
  \<^verbatim>\<open>NUM_LENGTH_CODES\<close> comes from \<^verbatim>\<open>format_constants.h\<close>, which is not part of the
  sources at hand: it is the parameter \<open>num_length_codes\<close>. The index \<^verbatim>\<open>idx\<close> is a
  \<^verbatim>\<open>uint32_t\<close>.
\<close>

definition GetCacheCost :: "nat \<Rightarrow> CostModel \<Rightarrow> uint32_t \<Rightarrow> int" where
  "GetCacheCost num_length_codes m idx =
     (let literal_idx = VALUES_IN_BYTE + num_length_codes + unat idx
      in uint (literal m ! literal_idx))"

text \<open>
  \<^verbatim>\<open>VP8LPrefixEncodeBits\<close> is a collaborator: \<open>prefix_encode_bits v\<close> is the pair
  \<open>(code, extra_bits)\<close> it stores. \<^verbatim>\<open>LOG_2_PRECISION_BITS\<close> is the parameter
  \<open>log_2_precision_bits\<close>.
\<close>

definition GetLengthCost ::
  "(uint32_t \<Rightarrow> int \<times> int) \<Rightarrow> nat \<Rightarrow> CostModel \<Rightarrow> uint32_t \<Rightarrow> int" where
  "GetLengthCost prefix_encode_bits log_2_precision_bits m len =
     (case prefix_encode_bits len of
        (code, extra_bits) \<Rightarrow>
          uint (literal m ! nat (int VALUES_IN_BYTE + code)) +
          extra_bits * 2 ^ log_2_precision_bits)"

definition GetDistanceCost ::
  "(uint32_t \<Rightarrow> int \<times> int) \<Rightarrow> nat \<Rightarrow> CostModel \<Rightarrow> uint32_t \<Rightarrow> int" where
  "GetDistanceCost prefix_encode_bits log_2_precision_bits m dist =
     (case prefix_encode_bits dist of
        (code, extra_bits) \<Rightarrow>
          uint (distance m ! nat code) + extra_bits * 2 ^ log_2_precision_bits)"

subsection \<open>The literal step\<close>

text \<open>
  The colour cache \<^verbatim>\<open>VP8LColorCache\<close> is a collaborator with state of type \<open>'cc\<close>:
  \<open>cc_contains\<close> is \<^verbatim>\<open>VP8LColorCacheContains\<close> (the slot, or a negative number),
  \<open>cc_insert\<close> is \<^verbatim>\<open>VP8LColorCacheInsert\<close>. \<^verbatim>\<open>DivRound\<close> (from \<^verbatim>\<open>utils.h\<close>) is the
  parameter \<open>div_round\<close>. The record gathers these with the other collaborators and
  constants of the pass: \<^verbatim>\<open>VP8LPrefixEncodeBits\<close>, \<^verbatim>\<open>LOG_2_PRECISION_BITS\<close>,
  \<^verbatim>\<open>VP8LDistanceToPlaneCode\<close> (applied to \<^verbatim>\<open>xsize\<close> and the offset) and \<^verbatim>\<open>MAX_LENGTH\<close>.
\<close>

record 'cc Collab =
  cc_contains :: "'cc \<Rightarrow> uint32_t \<Rightarrow> int"
  cc_insert :: "'cc \<Rightarrow> uint32_t \<Rightarrow> 'cc"
  div_round :: "int \<Rightarrow> int \<Rightarrow> int"
  num_length_codes :: nat
  prefix_encode_bits :: "uint32_t \<Rightarrow> int \<times> int"
  log_2_precision_bits :: nat
  distance_to_plane_code :: "int \<Rightarrow> int \<Rightarrow> int"
  max_length :: int

text \<open>
  \<^verbatim>\<open>AddSingleLiteralWithCostModel\<close> updates the colour cache, \<^verbatim>\<open>cost\<close> and
  \<^verbatim>\<open>dist_array\<close>; the model returns the three.
\<close>

definition AddSingleLiteralWithCostModel ::
  "'cc Collab \<Rightarrow> uint32_t list \<Rightarrow> 'cc \<Rightarrow> CostModel \<Rightarrow> int \<Rightarrow> bool \<Rightarrow> int \<Rightarrow>
   int list \<Rightarrow> nat list \<Rightarrow> 'cc \<times> int list \<times> nat list" where
  "AddSingleLiteralWithCostModel env argb hashers cost_model idx use_color_cache prev_cost
     cost dist_array =
     (let color = argb ! nat idx;
          ix = (if use_color_cache then cc_contains env hashers color else -1);
          hashers' = (if ix \<ge> 0 then hashers
                      else if use_color_cache then cc_insert env hashers color
                      else hashers);
          cost_val = (if ix \<ge> 0
                      then prev_cost +
                           div_round env
                             (GetCacheCost (num_length_codes env) cost_model (word_of_int ix) * 68)
                             100
                      else prev_cost +
                           div_round env (GetLiteralCost cost_model color * 82) 100)
      in if cost ! nat idx > cost_val
         then (hashers', cost[nat idx := cost_val], dist_array[nat idx := 1])
         else (hashers', cost, dist_array))"

subsection \<open>Tracing the chosen path backwards\<close>

text \<open>
  \<^verbatim>\<open>TraceBackwards\<close>: the pointers \<^verbatim>\<open>path\<close> and \<^verbatim>\<open>cur\<close> are offsets into
  \<^verbatim>\<open>dist_array\<close>. The loop need not end (an entry \<open>0\<close> repeats the same step for
  ever), so not returning is the value \<open>None\<close>.
\<close>

partial_function (option) trace_loop :: "nat list \<Rightarrow> int \<Rightarrow> int \<Rightarrow> (nat list \<times> int) option" where
  "trace_loop dist_array path cur =
     (if cur \<ge> 0
      then (let k = dist_array ! nat cur
            in trace_loop (dist_array[nat (path - 1) := k]) (path - 1) (cur - int k))
      else Some (dist_array, path))"

text \<open>
  The result is the array, the offset \<^verbatim>\<open>chosen_path\<close> and \<^verbatim>\<open>chosen_path_size\<close>.
\<close>

definition TraceBackwards :: "nat list \<Rightarrow> int \<Rightarrow> (nat list \<times> int \<times> int) option" where
  "TraceBackwards dist_array dist_array_size =
     (case trace_loop dist_array dist_array_size (dist_array_size - 1) of
        None \<Rightarrow> None
      | Some (d, path) \<Rightarrow> Some (d, path, dist_array_size - path))"

text \<open>
  A chain of hops read from the array: \<open>hops d ks e\<close> holds when \<open>ks\<close>, last hop first,
  leads from the end \<open>e\<close> (exclusive) down to position \<open>0\<close>, each hop being the entry
  of \<open>d\<close> at the last pixel it covers.
\<close>

fun hops :: "nat list \<Rightarrow> nat list \<Rightarrow> nat \<Rightarrow> bool" where
  "hops d [] e = (e = 0)"
| "hops d (k # ks) e = (0 < e \<and> k = d ! (e - 1) \<and> 0 < k \<and> k \<le> e \<and> hops d ks (e - k))"

section \<open>Properties\<close>

subsection \<open>Bit estimates\<close>

lemma count_loop_eq:
  "count_loop H s n = (s + sum_list H, n + int (length (filter (\<lambda>c. c > 0) H)))"
  by (induction H arbitrary: s n) (auto simp: add.assoc)

text \<open>
  Claim C9. For a sub-histogram \<open>H\<close> of \<open>m\<close> counts, with \<open>sum\<close> the sum of the
  counts (a \<^verbatim>\<open>uint32_t\<close>, as in the code) and \<open>nonzeros\<close> the number of positive
  counts: if \<open>nonzeros \<le> 1\<close> every output entry is \<open>0\<close>, otherwise entry \<open>i\<close> is
  \<open>FastLog2 sum - FastLog2 (H ! i)\<close>, for every \<open>i < m\<close>.
\<close>

theorem ConvertPopulationCountTableToBitEstimates_spec:
  "ConvertPopulationCountTableToBitEstimates VP8LFastLog2 H =
     (if card {i. i < length H \<and> H ! i > 0} \<le> 1
      then replicate (length H) 0
      else map (\<lambda>c. VP8LFastLog2 (sum_list H) - VP8LFastLog2 c) H)"
  by (simp add: ConvertPopulationCountTableToBitEstimates_def count_loop_eq
      length_filter_conv_card)

subsection \<open>The literal step\<close>

text \<open>
  Claim C6. With the colour cache enabled and holding \<open>argb[i]\<close> at slot \<open>ix\<close>, the
  candidate is \<open>prev_cost + DivRound (GetCacheCost ix * 68) 100\<close> and the cache is left
  alone; otherwise the candidate is \<open>prev_cost + DivRound (GetLiteralCost argb[i] * 82) 100\<close>
  and \<open>argb[i]\<close> is inserted into the cache when it is enabled. \<open>cost[i]\<close> is overwritten,
  and \<open>dist_array[i]\<close> set to \<open>1\<close>, exactly when the candidate is strictly smaller than
  \<open>cost[i]\<close>.
\<close>

theorem AddSingleLiteralWithCostModel_spec:
  "AddSingleLiteralWithCostModel env argb hashers cm idx ucc prev cost dist =
     (let color = argb ! nat idx;
          hit = (ucc \<and> cc_contains env hashers color \<ge> 0);
          cand = prev +
            (if hit
             then div_round env
                    (GetCacheCost (num_length_codes env) cm
                       (word_of_int (cc_contains env hashers color)) * 68) 100
             else div_round env (GetLiteralCost cm color * 82) 100)
      in (if \<not> hit \<and> ucc then cc_insert env hashers color else hashers,
          if cand < cost ! nat idx then cost[nat idx := cand] else cost,
          if cand < cost ! nat idx then dist[nat idx := 1] else dist))"
  by (simp add: AddSingleLiteralWithCostModel_def Let_def)

subsection \<open>The backward trace\<close>

fun hops_to :: "nat list \<Rightarrow> nat list \<Rightarrow> nat \<Rightarrow> nat \<Rightarrow> bool" where
  "hops_to d [] e e' = (e = e')"
| "hops_to d (k # ks) e e' = (0 < e \<and> k = d ! (e - 1) \<and> 0 < k \<and> k \<le> e \<and> hops_to d ks (e - k) e')"

lemma hops_to_0: "hops_to d ks e 0 = hops d ks e"
  by (induction ks arbitrary: e) auto

lemma hops_to_snoc:
  "hops_to d (ks @ [k]) e e' =
     (\<exists>m. hops_to d ks e m \<and> 0 < m \<and> k = d ! (m - 1) \<and> 0 < k \<and> k \<le> m \<and> e' = m - k)"
  by (induction ks arbitrary: e) auto

lemma hops_to_sum: "hops_to d ks e e' \<Longrightarrow> sum_list ks + e' = e"
proof (induction ks arbitrary: e)
  case Nil
  then show ?case by simp
next
  case (Cons k ks)
  from Cons.prems have "hops_to d ks (e - k) e'" "k \<le> e" by auto
  from Cons.IH[OF this(1)] this(2) show ?case by simp
qed

lemma trace_loop_inv:
  assumes pre: "\<forall>i<length d0. 1 \<le> d0 ! i \<and> d0 ! i \<le> i + 1"
  shows "length d = length d0 \<Longrightarrow> e \<le> p \<Longrightarrow> p \<le> length d0 \<Longrightarrow>
         take e d = take e d0 \<Longrightarrow> hops_to d0 (rev (drop p d)) (length d0) e \<Longrightarrow>
         \<exists>d' p'. trace_loop d (int p) (int e - 1) = Some (d', int p') \<and> p' \<le> p \<and>
            length d' = length d0 \<and> take p' d' = take p' d \<and>
            hops d0 (rev (drop p' d')) (length d0)"
proof (induction e arbitrary: d p rule: less_induct)
  case (less e)
  show ?case
  proof (cases "e = 0")
    case True
    have "trace_loop d (int p) (int e - 1) = Some (d, int p)"
      using True by (subst trace_loop.simps) simp
    then show ?thesis using less.prems True by (auto simp: hops_to_0)
  next
    case False
    define k where "k = d ! (e - 1)"
    have e1: "e - 1 < length d0" using False less.prems by simp
    have "d ! (e - 1) = take e d ! (e - 1)" using False by simp
    also have "\<dots> = d0 ! (e - 1)" using less.prems(4) False by simp
    finally have kd0: "k = d0 ! (e - 1)" by (simp add: k_def)
    have k1: "1 \<le> k" and k2: "k \<le> e" using pre e1 kd0 False by auto
    define d1 where "d1 = d[p - 1 := k]"
    have p0: "0 < p" using False less.prems by simp
    have step: "trace_loop d (int p) (int e - 1) = trace_loop d1 (int (p - 1)) (int (e - k) - 1)"
    proof -
      have a1: "nat (int e - 1) = e - 1" by simp
      have a2: "nat (int p - 1) = p - 1" by simp
      have a3: "int p - 1 = int (p - 1)" using p0 by simp
      have a4: "int e - 1 - int k = int (e - k) - 1" using k2 by simp
      have a5: "int e - 1 \<ge> 0" using False by simp
      show ?thesis
        by (subst trace_loop.simps) (simp only: a1 a3 a5 if_True Let_def nat_int a4[unfolded k_def] d1_def k_def)
    qed
    have len1: "length d1 = length d0" using less.prems by (simp add: d1_def)
    have le1: "e - k \<le> p - 1" using less.prems k1 False by simp
    have tk1: "take (e - k) d1 = take (e - k) d0"
    proof -
      have "take (e - k) d1 = take (e - k) d" using le1 k1 False less.prems
        by (simp add: d1_def)
      also have "\<dots> = take (e - k) (take e d)" by (simp add: min_def)
      also have "\<dots> = take (e - k) d0" using less.prems(4) by (simp add: min_def)
      finally show ?thesis .
    qed
    have dr: "drop (p - 1) d1 = k # drop p d"
      using p0 less.prems
      by (simp add: d1_def Cons_nth_drop_Suc[symmetric] drop_update_cancel)
    have h1: "hops_to d0 (rev (drop (p - 1) d1)) (length d0) (e - k)"
      unfolding dr using less.prems(5) k1 k2 kd0 False
      by (auto simp: hops_to_snoc)
    have "e - k < e" using k1 False by simp
    have pl: "p - 1 \<le> length d0" using less.prems by simp
    from less.IH[OF \<open>e - k < e\<close> len1 le1 pl tk1 h1]
    obtain d' p' where r: "trace_loop d1 (int (p - 1)) (int (e - k) - 1) = Some (d', int p')"
      "p' \<le> p - 1" "length d' = length d0" "take p' d' = take p' d1"
      "hops d0 (rev (drop p' d')) (length d0)"
      by auto
    have "take p' d' = take p' d" using r(2,4) by (simp add: d1_def)
    then show ?thesis using r step by auto
  qed
qed

text \<open>
  Claim C4. If \<open>1 \<le> dist_array[i] \<le> i + 1\<close> for every \<open>i < N\<close>, then
  \<^verbatim>\<open>TraceBackwards\<close> returns; \<^verbatim>\<open>chosen_path\<close> is the offset \<open>N - chosen_path_size\<close>, the
  entries before it are untouched, the entries from it on are the hops of the path that
  leads from pixel \<open>0\<close> to the end of the image, and they add up to \<open>N\<close>.
\<close>

theorem TraceBackwards_spec:
  assumes "\<forall>i<length d. 1 \<le> d ! i \<and> d ! i \<le> i + 1"
  shows "\<exists>d' sz. TraceBackwards d (int (length d)) =
            Some (d', int (length d) - int sz, int sz) \<and>
          sz \<le> length d \<and> length d' = length d \<and>
          take (length d - sz) d' = take (length d - sz) d \<and>
          hops d (rev (drop (length d - sz) d')) (length d) \<and>
          sum_list (drop (length d - sz) d') = length d"
proof -
  have "hops_to d (rev (drop (length d) d)) (length d) (length d)" by simp
  from trace_loop_inv[OF assms refl order_refl order_refl refl this]
  obtain d' p' where r: "trace_loop d (int (length d)) (int (length d) - 1) = Some (d', int p')"
    "p' \<le> length d" "length d' = length d" "take p' d' = take p' d"
    "hops d (rev (drop p' d')) (length d)"
    by blast
  define sz where "sz = length d - p'"
  have p': "p' = length d - sz" and szl: "sz \<le> length d" using r(2) by (simp_all add: sz_def)
  have t: "TraceBackwards d (int (length d)) = Some (d', int (length d) - int sz, int sz)"
    using r(1,2) by (simp add: TraceBackwards_def sz_def of_nat_diff)
  have "sum_list (rev (drop p' d')) + 0 = length d"
    using r(5) by (intro hops_to_sum[of d]) (simp add: hops_to_0)
  then have s: "sum_list (drop p' d') = length d" by simp
  show ?thesis
    using t szl r(3,4,5) s unfolding p' by blast
qed

text \<open>The hypothesis of C4 holds of the array \<open>[1, 1, 2, 1, 3]\<close>.\<close>

theorem TraceBackwards_spec_witness:
  "\<exists>d' sz. TraceBackwards [1, 1, 2, 1, 3] (int (length [1, 1, 2, 1, 3::nat])) =
            Some (d', int (length [1, 1, 2, 1, 3::nat]) - int sz, int sz) \<and>
          sz \<le> length [1, 1, 2, 1, 3::nat] \<and> length d' = length [1, 1, 2, 1, 3::nat] \<and>
          take (length [1, 1, 2, 1, 3::nat] - sz) d' =
            take (length [1, 1, 2, 1, 3::nat] - sz) [1, 1, 2, 1, 3] \<and>
          hops [1, 1, 2, 1, 3] (rev (drop (length [1, 1, 2, 1, 3::nat] - sz) d'))
            (length [1, 1, 2, 1, 3::nat]) \<and>
          sum_list (drop (length [1, 1, 2, 1, 3::nat] - sz) d') = length [1, 1, 2, 1, 3::nat]"
proof -
  have h: "\<forall>i<length [1, 1, 2, 1, 3::nat].
             1 \<le> [1, 1, 2, 1, 3::nat] ! i \<and> [1, 1, 2, 1, 3::nat] ! i \<le> i + 1"
    by (simp add: nth_Cons' less_Suc_eq all_conj_distrib)
  show ?thesis by (rule TraceBackwards_spec[OF h])
qed

subsection \<open>The cost manager\<close>

text \<open>
  A \<^verbatim>\<open>CostInterval\<close> of the manager's doubly linked list. The list itself is the HOL
  list \<open>head\<close> of the manager: the nodes reached from \<^verbatim>\<open>manager->head\<close> along
  \<^verbatim>\<open>next\<close>, in that order, so that \<^verbatim>\<open>previous\<close> and \<^verbatim>\<open>next\<close> of a node are its
  neighbours in the list and \<^verbatim>\<open>ConnectIntervals\<close> is the splice of the list. A pointer
  to a node of the list is the node's position in it, \<^verbatim>\<open>NULL\<close> is \<open>None\<close>. The field
  \<open>i_addr\<close> is the storage the node occupies: \<open>0, \<dots>, 9\<close> are the ten records
  \<^verbatim>\<open>manager->intervals[]\<close>, larger numbers are blocks obtained from
  \<^verbatim>\<open>WebPSafeMalloc\<close>.
\<close>

record CostInterval =
  i_cost :: int
  i_start :: int
  i_end :: int
  i_index :: int
  i_addr :: nat

record CostCacheInterval =
  c_cost :: int
  c_start :: int
  c_end :: int

text \<open>
  \<open>malloc_results\<close> stands for the allocator: the results of the calls of
  \<^verbatim>\<open>WebPSafeMalloc(1, sizeof(CostInterval))\<close> still to come, \<open>None\<close> for a \<^verbatim>\<open>NULL\<close>
  (and \<^verbatim>\<open>NULL\<close> once the list is used up). \<^verbatim>\<open>cache_intervals_size\<close> is the length
  of \<open>cache_intervals\<close>.
\<close>

record CostManager =
  head :: "CostInterval list"
  count :: int
  cache_intervals :: "CostCacheInterval list"
  cost_cache :: "int list"
  costs :: "int list"
  dist_array :: "nat list"
  free_intervals :: "nat list"
  recycled_intervals :: "nat list"
  malloc_results :: "nat option list"

definition COST_CACHE_INTERVAL_SIZE_MAX :: int where
  "COST_CACHE_INTERVAL_SIZE_MAX = 500"

definition COST_MANAGER_MAX_FREE_LIST :: nat where
  "COST_MANAGER_MAX_FREE_LIST = 10"

definition CostIntervalIsInFreeList :: "nat \<Rightarrow> bool" where
  "CostIntervalIsInFreeList a = (a \<le> COST_MANAGER_MAX_FREE_LIST - 1)"

definition head_ptr :: "CostInterval list \<Rightarrow> nat option" where
  "head_ptr xs = (if xs = [] then None else Some 0)"

definition next_of :: "CostInterval list \<Rightarrow> nat \<Rightarrow> nat option" where
  "next_of xs p = (if Suc p < length xs then Some (Suc p) else None)"

text \<open>
  Where a pointer held in a local variable points after a node was spliced in at
  position \<open>q\<close>, or after the node at position \<open>p\<close> was unlinked.
\<close>

definition ptr_after_insert :: "nat option \<Rightarrow> nat option \<Rightarrow> nat option" where
  "ptr_after_insert q ptr =
     (case q of None \<Rightarrow> ptr
      | Some q' \<Rightarrow> (case ptr of None \<Rightarrow> None
                     | Some r \<Rightarrow> if q' \<le> r then Some (Suc r) else Some r))"

definition ptr_after_pop :: "nat \<Rightarrow> nat option \<Rightarrow> nat option" where
  "ptr_after_pop p ptr =
     (case ptr of None \<Rightarrow> None | Some r \<Rightarrow> if p < r then Some (r - 1) else Some r)"

definition UpdateCost :: "CostManager \<Rightarrow> int \<Rightarrow> int \<Rightarrow> int \<Rightarrow> CostManager" where
  "UpdateCost manager i position cost =
     (let k = i - position
      in if costs manager ! nat i > cost
         then manager\<lparr>costs := (costs manager)[nat i := cost],
                      dist_array := (dist_array manager)[nat i := nat ((k + 1) mod 65536)]\<rparr>
         else manager)"

function UpdateCostPerInterval ::
  "CostManager \<Rightarrow> int \<Rightarrow> int \<Rightarrow> int \<Rightarrow> int \<Rightarrow> CostManager" where
  "UpdateCostPerInterval manager start end position cost =
     (if start < end
      then UpdateCostPerInterval (UpdateCost manager start position cost) (start + 1) end
             position cost
      else manager)"
  by pat_completeness auto
termination
  by (relation "measure (\<lambda>(manager, start, end, position, cost). nat (end - start))") auto

declare UpdateCostPerInterval.simps [simp del]

definition PopInterval :: "CostManager \<Rightarrow> nat option \<Rightarrow> CostManager" where
  "PopInterval manager interval =
     (case interval of
        None \<Rightarrow> manager
      | Some p \<Rightarrow>
          (let node = head manager ! p;
               manager1 = manager\<lparr>head := take p (head manager) @ drop (Suc p) (head manager)\<rparr>;
               manager2 =
                 (if CostIntervalIsInFreeList (i_addr node)
                  then manager1\<lparr>free_intervals := i_addr node # free_intervals manager1\<rparr>
                  else manager1\<lparr>recycled_intervals :=
                                    i_addr node # recycled_intervals manager1\<rparr>)
           in manager2\<lparr>count := count manager2 - 1\<rparr>))"

definition ptr_measure :: "CostInterval list \<Rightarrow> nat option \<Rightarrow> nat" where
  "ptr_measure xs ptr = (case ptr of None \<Rightarrow> 0 | Some p \<Rightarrow> Suc (length xs - p))"

lemma head_PopInterval:
  "head (PopInterval manager (Some p)) = take p (head manager) @ drop (Suc p) (head manager)"
  by (simp add: PopInterval_def Let_def)

lemma head_UpdateCost: "head (UpdateCost manager i position cost) = head manager"
  by (simp add: UpdateCost_def Let_def)

lemma ptr_measure_next:
  "ptr_measure xs (next_of xs p) < ptr_measure xs (Some p)"
  by (auto simp: ptr_measure_def next_of_def)

lemma ptr_measure_pop:
  "ptr_measure (take p xs @ drop (Suc p) xs) (ptr_after_pop p (next_of xs p))
     < ptr_measure xs (Some p)"
  by (auto simp: ptr_measure_def next_of_def ptr_after_pop_def)

text \<open>
  The loop of \<^verbatim>\<open>UpdateCostAtIndex\<close>, from the node \<open>current\<close> on.
\<close>

function update_at_loop :: "CostManager \<Rightarrow> nat option \<Rightarrow> int \<Rightarrow> bool \<Rightarrow> CostManager" where
  "update_at_loop manager current i do_clean_intervals =
     (case current of
        None \<Rightarrow> manager
      | Some p \<Rightarrow>
          if i_start (head manager ! p) \<le> i
          then (let next = next_of (head manager) p
                in if i_end (head manager ! p) \<le> i
                   then (if do_clean_intervals
                         then update_at_loop (PopInterval manager current)
                                (ptr_after_pop p next) i do_clean_intervals
                         else update_at_loop manager next i do_clean_intervals)
                   else update_at_loop
                          (UpdateCost manager i (i_index (head manager ! p))
                             (i_cost (head manager ! p)))
                          next i do_clean_intervals)
          else manager)"
  by pat_completeness auto
termination
  by (relation "measure (\<lambda>(manager, current, i, c). ptr_measure (head manager) current)")
     (auto simp: head_PopInterval head_UpdateCost ptr_measure_next ptr_measure_pop)

declare update_at_loop.simps [simp del]

definition UpdateCostAtIndex :: "CostManager \<Rightarrow> int \<Rightarrow> bool \<Rightarrow> CostManager" where
  "UpdateCostAtIndex manager i do_clean_intervals =
     update_at_loop manager (head_ptr (head manager)) i do_clean_intervals"

text \<open>
  The two loops of \<^verbatim>\<open>PositionOrphanInterval\<close>: backwards from \<open>previous\<close> while the
  orphan starts before it, then forwards while the successor starts before the orphan.
\<close>

fun walk_back :: "CostInterval list \<Rightarrow> int \<Rightarrow> nat \<Rightarrow> nat option" where
  "walk_back xs s 0 = (if s < i_start (xs ! 0) then None else Some 0)"
| "walk_back xs s (Suc p) =
     (if s < i_start (xs ! Suc p) then walk_back xs s p else Some (Suc p))"

function walk_forward :: "CostInterval list \<Rightarrow> int \<Rightarrow> nat \<Rightarrow> nat" where
  "walk_forward xs s p =
     (if Suc p < length xs \<and> i_start (xs ! Suc p) < s then walk_forward xs s (Suc p) else p)"
  by pat_completeness auto
termination
  by (relation "measure (\<lambda>(xs, s, p). length xs - p)") auto

declare walk_forward.simps [simp del]

text \<open>
  \<open>orphan_position\<close> is the place in the list at which \<^verbatim>\<open>PositionOrphanInterval\<close>
  links the orphan; the function itself returns the manager with the node linked there.
\<close>

definition orphan_position :: "CostInterval list \<Rightarrow> int \<Rightarrow> nat option \<Rightarrow> nat" where
  "orphan_position xs s previous =
     (let previous1 = (if previous = None then head_ptr xs else previous);
          previous2 = (case previous1 of None \<Rightarrow> None | Some p \<Rightarrow> walk_back xs s p);
          previous3 = (case previous2 of None \<Rightarrow> None | Some p \<Rightarrow> Some (walk_forward xs s p))
      in case previous3 of None \<Rightarrow> 0 | Some p \<Rightarrow> Suc p)"

definition PositionOrphanInterval ::
  "CostManager \<Rightarrow> CostInterval \<Rightarrow> nat option \<Rightarrow> CostManager" where
  "PositionOrphanInterval manager current previous =
     (let q = orphan_position (head manager) (i_start current) previous
      in manager\<lparr>head := take q (head manager) @ current # drop q (head manager)\<rparr>)"

text \<open>
  \<^verbatim>\<open>InsertInterval\<close>. Besides the manager, the model returns where the new node was
  linked (\<open>None\<close> when no node was stored), which the caller needs to keep its own
  pointers into the list.
\<close>

definition store_interval ::
  "CostManager \<Rightarrow> nat option \<Rightarrow> int \<Rightarrow> int \<Rightarrow> int \<Rightarrow> int \<Rightarrow> nat \<Rightarrow>
   CostManager \<times> nat option" where
  "store_interval manager interval_in cost position start end interval_new =
     (let node = \<lparr>i_cost = cost, i_start = start, i_end = end, i_index = position,
                  i_addr = interval_new\<rparr>;
          manager1 = PositionOrphanInterval manager node interval_in
      in (manager1\<lparr>count := count manager1 + 1\<rparr>,
          Some (orphan_position (head manager) start interval_in)))"

definition InsertInterval ::
  "CostManager \<Rightarrow> nat option \<Rightarrow> int \<Rightarrow> int \<Rightarrow> int \<Rightarrow> int \<Rightarrow> CostManager \<times> nat option" where
  "InsertInterval manager interval_in cost position start end =
     (if start \<ge> end then (manager, None)
      else if count manager \<ge> COST_CACHE_INTERVAL_SIZE_MAX
      then (UpdateCostPerInterval manager start end position cost, None)
      else (case free_intervals manager of
              a # rest \<Rightarrow>
                store_interval (manager\<lparr>free_intervals := rest\<rparr>) interval_in cost position
                  start end a
            | [] \<Rightarrow>
               (case recycled_intervals manager of
                  a # rest \<Rightarrow>
                    store_interval (manager\<lparr>recycled_intervals := rest\<rparr>) interval_in cost
                      position start end a
                | [] \<Rightarrow>
                   (case malloc_results manager of
                      Some a # rest \<Rightarrow>
                        store_interval (manager\<lparr>malloc_results := rest\<rparr>) interval_in cost
                          position start end a
                    | None # rest \<Rightarrow>
                        (UpdateCostPerInterval (manager\<lparr>malloc_results := rest\<rparr>) start end
                           position cost, None)
                    | [] \<Rightarrow>
                        (UpdateCostPerInterval manager start end position cost, None)))))"

lemma head_UpdateCostPerInterval:
  "head (UpdateCostPerInterval manager start end position cost) = head manager"
  by (induction manager start "end" position cost rule: UpdateCostPerInterval.induct)
     (subst UpdateCostPerInterval.simps, simp add: head_UpdateCost)

lemma walk_back_le: "walk_back xs s p = Some r \<Longrightarrow> r \<le> p"
  by (induction p) (auto split: if_splits)

lemma walk_back_lt:
  "s < i_start (xs ! p) \<Longrightarrow> walk_back xs s p = Some r \<Longrightarrow> r < p"
  by (cases p) (auto dest: walk_back_le simp: less_Suc_eq_le)

lemma walk_forward_lt:
  "r < p \<Longrightarrow> \<not> i_start (xs ! p) < s \<Longrightarrow> walk_forward xs s r < p"
proof (induction xs s r rule: walk_forward.induct)
  case (1 xs s r)
  show ?case
  proof (cases "Suc r < length xs \<and> i_start (xs ! Suc r) < s")
    case True
    then have "Suc r \<noteq> p" using "1.prems" by auto
    then have "Suc r < p" using "1.prems" by simp
    from "1.IH"[OF True this "1.prems"(2)] True show ?thesis
      by (subst walk_forward.simps) simp
  next
    case False
    then show ?thesis using "1.prems" by (subst walk_forward.simps) auto
  qed
qed

lemma orphan_position_le:
  "s < i_start (xs ! p) \<Longrightarrow> orphan_position xs s (Some p) \<le> p"
proof (cases "walk_back xs s p")
  case None
  then show ?thesis by (simp add: orphan_position_def)
next
  case (Some r)
  assume a: "s < i_start (xs ! p)"
  from walk_back_lt[OF a Some] have "r < p" .
  from walk_forward_lt[OF this] a have "walk_forward xs s r < p" by simp
  then show ?thesis using Some by (simp add: orphan_position_def)
qed

text \<open>
  Whether \<^verbatim>\<open>InsertInterval\<close> stores a node, and the storage it takes for it.
\<close>

definition will_store :: "CostManager \<Rightarrow> int \<Rightarrow> int \<Rightarrow> bool" where
  "will_store manager start end =
     (start < end \<and> count manager < COST_CACHE_INTERVAL_SIZE_MAX \<and>
      (free_intervals manager \<noteq> [] \<or> recycled_intervals manager \<noteq> [] \<or>
       (\<exists>a rest. malloc_results manager = Some a # rest)))"

definition new_addr :: "CostManager \<Rightarrow> nat" where
  "new_addr manager =
     (if free_intervals manager \<noteq> [] then hd (free_intervals manager)
      else if recycled_intervals manager \<noteq> [] then hd (recycled_intervals manager)
      else the (hd (malloc_results manager)))"

lemma UpdateCost_malloc:
  "UpdateCost (manager\<lparr>malloc_results := r\<rparr>) i position cost =
     (UpdateCost manager i position cost)\<lparr>malloc_results := r\<rparr>"
  by (simp add: UpdateCost_def Let_def)

lemma UpdateCostPerInterval_malloc:
  "UpdateCostPerInterval (manager\<lparr>malloc_results := r\<rparr>) start end position cost =
     (UpdateCostPerInterval manager start end position cost)\<lparr>malloc_results := r\<rparr>"
proof (induction manager start "end" position cost rule: UpdateCostPerInterval.induct)
  case (1 manager start "end" position cost)
  show ?case
  proof (cases "start < end")
    case True
    from "1.IH"[OF True] True show ?thesis
      by (subst UpdateCostPerInterval.simps, subst (2) UpdateCostPerInterval.simps)
         (simp add: UpdateCost_malloc)
  next
    case False
    then show ?thesis
      by (subst UpdateCostPerInterval.simps, subst (2) UpdateCostPerInterval.simps) simp
  qed
qed

lemma store_interval_eq:
  "store_interval manager hint cost position start end a =
     (manager\<lparr>head := take (orphan_position (head manager) start hint) (head manager) @
          \<lparr>i_cost = cost, i_start = start, i_end = end, i_index = position, i_addr = a\<rparr> #
          drop (orphan_position (head manager) start hint) (head manager),
        count := count manager + 1\<rparr>,
      Some (orphan_position (head manager) start hint))"
  by (simp add: store_interval_def PositionOrphanInterval_def Let_def)

lemma InsertInterval_empty:
  "\<not> start < end \<Longrightarrow>
   InsertInterval manager hint cost position start end = (manager, None)"
  by (simp add: InsertInterval_def)

lemma InsertInterval_serialize:
  assumes "start < end" "\<not> will_store manager start end"
  shows "\<exists>r. InsertInterval manager hint cost position start end =
           ((UpdateCostPerInterval manager start end position cost)\<lparr>malloc_results := r\<rparr>, None)"
proof (cases "count manager \<ge> COST_CACHE_INTERVAL_SIZE_MAX")
  case True
  have "InsertInterval manager hint cost position start end =
          (UpdateCostPerInterval manager start end position cost, None)"
    using assms(1) True by (simp add: InsertInterval_def)
  moreover have "UpdateCostPerInterval manager start end position cost =
     (UpdateCostPerInterval manager start end position cost)\<lparr>malloc_results :=
        malloc_results (UpdateCostPerInterval manager start end position cost)\<rparr>"
    by simp
  ultimately show ?thesis by metis
next
  case False
  with assms have f: "free_intervals manager = []" and r: "recycled_intervals manager = []"
    and m: "\<not> (\<exists>a rest. malloc_results manager = Some a # rest)"
    by (auto simp: will_store_def)
  show ?thesis
  proof (cases "malloc_results manager")
    case Nil
    have "InsertInterval manager hint cost position start end =
          (UpdateCostPerInterval manager start end position cost, None)"
      using assms(1) False f r Nil by (simp add: InsertInterval_def)
    moreover have "UpdateCostPerInterval manager start end position cost =
       (UpdateCostPerInterval manager start end position cost)\<lparr>malloc_results :=
          malloc_results (UpdateCostPerInterval manager start end position cost)\<rparr>"
      by simp
    ultimately show ?thesis by metis
  next
    case (Cons x rest)
    with m have x: "x = None" by (cases x) auto
    have "InsertInterval manager hint cost position start end =
          (UpdateCostPerInterval (manager\<lparr>malloc_results := rest\<rparr>) start end position cost,
           None)"
      using assms(1) False f r Cons x by (simp add: InsertInterval_def)
    then show ?thesis unfolding UpdateCostPerInterval_malloc by blast
  qed
qed

lemma InsertInterval_store:
  assumes "will_store manager start end"
  shows "\<exists>f r m. InsertInterval manager hint cost position start end =
           (manager\<lparr>head := take (orphan_position (head manager) start hint) (head manager) @
                \<lparr>i_cost = cost, i_start = start, i_end = end, i_index = position,
                   i_addr = new_addr manager\<rparr> #
                drop (orphan_position (head manager) start hint) (head manager),
              count := count manager + 1,
              free_intervals := f, recycled_intervals := r, malloc_results := m\<rparr>,
            Some (orphan_position (head manager) start hint))"
proof -
  from assms have se: "start < end" and c: "\<not> count manager \<ge> COST_CACHE_INTERVAL_SIZE_MAX"
    by (auto simp: will_store_def)
  let ?node = "\<lparr>i_cost = cost, i_start = start, i_end = end, i_index = position,
                   i_addr = new_addr manager\<rparr>"
  let ?q = "orphan_position (head manager) start hint"
  let ?R = "\<lambda>f r m. (manager\<lparr>head := take ?q (head manager) @ ?node # drop ?q (head manager),
              count := count manager + 1,
              free_intervals := f, recycled_intervals := r, malloc_results := m\<rparr>, Some ?q)"
  show ?thesis
  proof (cases "free_intervals manager")
    case (Cons a rest)
    have "InsertInterval manager hint cost position start end =
            ?R rest (recycled_intervals manager) (malloc_results manager)"
      using se c Cons by (simp add: InsertInterval_def store_interval_eq new_addr_def)
    then show ?thesis by blast
  next
    case Nil
    note f = Nil
    show ?thesis
    proof (cases "recycled_intervals manager")
      case (Cons a rest)
      have "InsertInterval manager hint cost position start end =
              ?R [] rest (malloc_results manager)"
        using se c f Cons by (simp add: InsertInterval_def store_interval_eq new_addr_def)
      then show ?thesis by blast
    next
      case Nil
      with f assms obtain a rest where m: "malloc_results manager = Some a # rest"
        by (auto simp: will_store_def)
      have "InsertInterval manager hint cost position start end = ?R [] [] rest"
        using se c f Nil m by (simp add: InsertInterval_def store_interval_eq new_addr_def)
      then show ?thesis by blast
    qed
  qed
qed

lemma head_InsertInterval:
  "InsertInterval manager hint cost position start end = (manager', q) \<Longrightarrow>
   (q = None \<and> head manager' = head manager) \<or>
   (start < end \<and> q = Some (orphan_position (head manager) start hint) \<and>
    length (head manager') = Suc (length (head manager)))"
proof -
  assume a: "InsertInterval manager hint cost position start end = (manager', q)"
  show ?thesis
  proof (cases "will_store manager start end")
    case True
    from InsertInterval_store[OF True, of hint cost position] a
    show ?thesis using True by (auto simp: will_store_def)
  next
    case False
    show ?thesis
    proof (cases "start < end")
      case True
      from InsertInterval_serialize[OF True False, of hint cost position] a
      show ?thesis by (auto simp: head_UpdateCostPerInterval)
    next
      case False
      from InsertInterval_empty[OF False, of manager hint cost position] a
      show ?thesis by simp
    qed
  qed
qed

lemma ptr_measure_insert:
  assumes "InsertInterval manager (Some p) cost position start (i_start (head manager ! p)) =
             (manager', q)"
  shows "ptr_measure (head manager') (ptr_after_insert q (next_of (head manager) p))
           < ptr_measure (head manager) (Some p)"
proof -
  from head_InsertInterval[OF assms]
  consider (a) "q = None" "head manager' = head manager"
    | (b) "start < i_start (head manager ! p)"
        "q = Some (orphan_position (head manager) start (Some p))"
        "length (head manager') = Suc (length (head manager))"
    by blast
  then show ?thesis
  proof cases
    case a
    then show ?thesis by (simp add: ptr_after_insert_def ptr_measure_next)
  next
    case b
    from orphan_position_le[OF b(1)] b(2,3) show ?thesis
      by (auto simp: ptr_after_insert_def ptr_measure_def next_of_def)
  qed
qed

text \<open>
  The body of the inner loop of \<^verbatim>\<open>PushInterval\<close> for the node at position \<open>p\<close> and
  the segment \<open>[start, end)\<close> of cost \<open>cost\<close>. The result says whether the loop goes on
  (\<^verbatim>\<open>continue\<close>, or the end of the body) or is left (\<^verbatim>\<open>break\<close>), and gives the manager,
  the pointer \<^verbatim>\<open>interval\<close> (already advanced to \<^verbatim>\<open>interval_next\<close> when the loop goes on)
  and \<^verbatim>\<open>start\<close>.
\<close>

definition push_step ::
  "CostManager \<Rightarrow> nat \<Rightarrow> int \<Rightarrow> int \<Rightarrow> int \<Rightarrow> int \<Rightarrow>
   bool \<times> CostManager \<times> nat option \<times> int" where
  "push_step manager p start end cost position =
     (let interval = head manager ! p;
          interval_next = next_of (head manager) p
      in if start \<ge> i_end interval then (True, manager, interval_next, start)
         else if cost \<ge> i_cost interval
         then (let start_new = i_end interval
               in case InsertInterval manager (Some p) cost position start (i_start interval) of
                    (manager', q) \<Rightarrow>
                      if start_new \<ge> end
                      then (False, manager', ptr_after_insert q (Some p), start_new)
                      else (True, manager', ptr_after_insert q interval_next, start_new))
         else if start \<le> i_start interval
         then (if i_end interval \<le> end
               then (True, PopInterval manager (Some p), ptr_after_pop p interval_next, start)
               else (False, manager\<lparr>head := (head manager)[p := interval\<lparr>i_start := end\<rparr>]\<rparr>,
                     Some p, start))
         else if end < i_end interval
         then (let end_original = i_end interval;
                   manager1 = manager\<lparr>head := (head manager)[p := interval\<lparr>i_end := start\<rparr>]\<rparr>
               in case InsertInterval manager1 (Some p) (i_cost interval) (i_index interval) end
                         end_original of
                    (manager', q) \<Rightarrow>
                      (False, manager',
                       (case ptr_after_insert q (Some p) of
                          None \<Rightarrow> None
                        | Some p' \<Rightarrow> next_of (head manager') p'),
                       start))
         else (True, manager\<lparr>head := (head manager)[p := interval\<lparr>i_end := start\<rparr>]\<rparr>,
               interval_next, start))"

lemma push_step_measure:
  assumes "push_step manager p start end cost position = (True, manager', interval', start')"
  shows "ptr_measure (head manager') interval' < ptr_measure (head manager) (Some p)"
proof -
  have upd: "ptr_measure ((head manager)[p := v]) (next_of (head manager) p)
          < ptr_measure (head manager) (Some p)" for v
    by (auto simp: ptr_measure_def next_of_def)
  show ?thesis
    using assms ptr_measure_insert[of manager p cost position start] upd
    unfolding push_step_def Let_def
    by (auto split: if_splits prod.splits simp: ptr_measure_next head_PopInterval ptr_measure_pop)
qed

text \<open>
  The inner loop itself: it returns the manager, \<^verbatim>\<open>interval\<close> and \<^verbatim>\<open>start\<close> as they are
  when the loop is left.
\<close>

function push_loop ::
  "CostManager \<Rightarrow> nat option \<Rightarrow> int \<Rightarrow> int \<Rightarrow> int \<Rightarrow> int \<Rightarrow> CostManager \<times> nat option \<times> int" where
  "push_loop manager interval start end cost position =
     (case interval of
        None \<Rightarrow> (manager, None, start)
      | Some p \<Rightarrow>
          if i_start (head manager ! p) < end
          then (case push_step manager p start end cost position of
                  (True, manager', interval', start') \<Rightarrow>
                    push_loop manager' interval' start' end cost position
                | (False, r) \<Rightarrow> r)
          else (manager, interval, start))"
  by pat_completeness auto
termination
  by (relation "measure (\<lambda>(manager, interval, start, end, cost, position).
                   ptr_measure (head manager) interval)")
     (auto simp: push_step_measure[OF sym])

declare push_loop.simps [simp del]

text \<open>
  The outer loop of \<^verbatim>\<open>PushInterval\<close> over the cache intervals still to visit.
\<close>

fun push_segments ::
  "CostManager \<Rightarrow> nat option \<Rightarrow> int \<Rightarrow> int \<Rightarrow> int \<Rightarrow> CostCacheInterval list \<Rightarrow> CostManager" where
  "push_segments manager interval distance_cost position len [] = manager"
| "push_segments manager interval distance_cost position len (ci # cis) =
     (if c_start ci < len
      then (let start = position + c_start ci;
                end = position + (if c_end ci > len then len else c_end ci);
                cost = distance_cost + c_cost ci
            in case push_loop manager interval start end cost position of
                 (manager1, interval1, start1) \<Rightarrow>
                   (case InsertInterval manager1 interval1 cost position start1 end of
                      (manager2, q) \<Rightarrow>
                        push_segments manager2 (ptr_after_insert q interval1) distance_cost
                          position len cis))
      else manager)"

text \<open>The loop of the short path of \<^verbatim>\<open>PushInterval\<close>, from \<open>j\<close> on.\<close>

function push_small :: "CostManager \<Rightarrow> int \<Rightarrow> int \<Rightarrow> int \<Rightarrow> int \<Rightarrow> CostManager" where
  "push_small manager distance_cost position len j =
     (if j < position + len
      then (let k = j - position;
                cost_tmp = distance_cost + cost_cache manager ! nat k
            in push_small
                 (if costs manager ! nat j > cost_tmp
                  then manager\<lparr>costs := (costs manager)[nat j := cost_tmp],
                               dist_array := (dist_array manager)[nat j := nat ((k + 1) mod 65536)]\<rparr>
                  else manager)
                 distance_cost position len (j + 1))
      else manager)"
  by pat_completeness auto
termination
  by (relation "measure (\<lambda>(manager, distance_cost, position, len, j). nat (position + len - j))")
     auto

declare push_small.simps [simp del]

definition kSkipDistance :: int where
  "kSkipDistance = 10"

definition PushInterval :: "CostManager \<Rightarrow> int \<Rightarrow> int \<Rightarrow> int \<Rightarrow> CostManager" where
  "PushInterval manager distance_cost position len =
     (if len < kSkipDistance
      then push_small manager distance_cost position len position
      else push_segments manager (head_ptr (head manager)) distance_cost position len
             (cache_intervals manager))"

subsection \<open>What the relaxations write\<close>

text \<open>
  \<open>only_costs m m'\<close>: the manager \<open>m'\<close> differs from \<open>m\<close> in \<^verbatim>\<open>costs\<close> and
  \<^verbatim>\<open>dist_array\<close> at most.
\<close>

definition only_costs :: "CostManager \<Rightarrow> CostManager \<Rightarrow> bool" where
  "only_costs m m' = (m' = m\<lparr>costs := costs m', dist_array := dist_array m'\<rparr>)"

lemma only_costs_refl: "only_costs m m"
  by (simp add: only_costs_def)

lemma only_costs_trans: "only_costs m m' \<Longrightarrow> only_costs m' m'' \<Longrightarrow> only_costs m m''"
  unfolding only_costs_def
  by (metis (no_types, lifting) CostManager.surjective CostManager.update_convs(5)
      CostManager.update_convs(6) CostManager.select_convs)

lemma only_costs_fields:
  assumes "only_costs m m'"
  shows "head m' = head m" "count m' = count m" "cache_intervals m' = cache_intervals m"
    "cost_cache m' = cost_cache m" "free_intervals m' = free_intervals m"
    "recycled_intervals m' = recycled_intervals m" "malloc_results m' = malloc_results m"
  using assms unfolding only_costs_def
  by (metis CostManager.select_convs CostManager.surjective CostManager.update_convs(5)
      CostManager.update_convs(6))+

lemma only_costs_UpdateCost: "only_costs m (UpdateCost m i position cost)"
  by (simp add: only_costs_def UpdateCost_def Let_def)

lemma UpdateCost_length:
  "length (costs (UpdateCost m i position cost)) = length (costs m)"
  "length (dist_array (UpdateCost m i position cost)) = length (dist_array m)"
  by (simp_all add: UpdateCost_def Let_def)

lemma UpdateCost_costs_nth:
  "j < length (costs m) \<Longrightarrow>
   costs (UpdateCost m i position cost) ! j =
     (if j = nat i \<and> cost < costs m ! j then cost else costs m ! j)"
  by (auto simp: UpdateCost_def Let_def)

lemma UpdateCost_dist_nth:
  "j < length (dist_array m) \<Longrightarrow>
   dist_array (UpdateCost m i position cost) ! j =
     (if j = nat i \<and> cost < costs m ! j then nat ((i - position + 1) mod 65536)
      else dist_array m ! j)"
  by (auto simp: UpdateCost_def Let_def)

text \<open>One round of the loop of the short path.\<close>

definition small_step :: "CostManager \<Rightarrow> int \<Rightarrow> int \<Rightarrow> int \<Rightarrow> CostManager" where
  "small_step m dc position j =
     (if costs m ! nat j > dc + cost_cache m ! nat (j - position)
      then m\<lparr>costs := (costs m)[nat j := dc + cost_cache m ! nat (j - position)],
             dist_array := (dist_array m)[nat j := nat ((j - position + 1) mod 65536)]\<rparr>
      else m)"

lemma push_small_unfold:
  "push_small m dc position len j =
     (if j < position + len then push_small (small_step m dc position j) dc position len (j + 1)
      else m)"
  by (subst push_small.simps) (simp add: Let_def small_step_def)

lemma small_step_only_costs: "only_costs m (small_step m dc position j)"
  by (simp add: only_costs_def small_step_def)

lemma small_step_fields:
  "length (costs (small_step m dc position j)) = length (costs m)"
  "length (dist_array (small_step m dc position j)) = length (dist_array m)"
  "cost_cache (small_step m dc position j) = cost_cache m"
  by (simp_all add: small_step_def)

lemma small_step_costs:
  "0 \<le> j \<Longrightarrow> i < length (costs m) \<Longrightarrow>
   costs (small_step m dc position j) ! i =
     (if int i = j then min (costs m ! i) (dc + cost_cache m ! nat (int i - position))
      else costs m ! i)"
  by (cases "i = nat j") (auto simp: small_step_def)

lemma small_step_dist:
  "0 \<le> j \<Longrightarrow> i < length (dist_array m) \<Longrightarrow>
   dist_array (small_step m dc position j) ! i =
     (if int i = j \<and> dc + cost_cache m ! nat (int i - position) < costs m ! i
      then nat ((int i - position + 1) mod 65536)
      else dist_array m ! i)"
  by (cases "i = nat j") (auto simp: small_step_def)

lemma push_small_only_costs: "only_costs m (push_small m dc position len j)"
proof (induction m dc position len j rule: push_small.induct)
  case (1 m dc position len j)
  show ?case
  proof (cases "j < position + len")
    case True
    have "only_costs (small_step m dc position j)
            (push_small (small_step m dc position j) dc position len (j + 1))"
      using "1.IH"[OF True refl refl] by (simp add: small_step_def)
    from only_costs_trans[OF small_step_only_costs this] True show ?thesis
      by (subst push_small_unfold) simp
  next
    case False
    then show ?thesis by (subst push_small_unfold) (simp add: only_costs_refl)
  qed
qed

lemma push_small_length:
  "length (costs (push_small m dc position len j)) = length (costs m) \<and>
   length (dist_array (push_small m dc position len j)) = length (dist_array m)"
proof (induction m dc position len j rule: push_small.induct)
  case (1 m dc position len j)
  show ?case
  proof (cases "j < position + len")
    case True
    have "length (costs (push_small (small_step m dc position j) dc position len (j + 1))) =
            length (costs (small_step m dc position j)) \<and>
          length (dist_array (push_small (small_step m dc position j) dc position len (j + 1))) =
            length (dist_array (small_step m dc position j))"
      using "1.IH"[OF True refl refl] by (simp add: small_step_def)
    then show ?thesis using True
      by (subst push_small_unfold, subst (2) push_small_unfold) (simp add: small_step_fields)
  next
    case False
    then show ?thesis by (subst push_small_unfold, subst (2) push_small_unfold) simp
  qed
qed

lemma push_small_costs:
  "0 \<le> j0 \<Longrightarrow> i < length (costs m) \<Longrightarrow>
   costs (push_small m dc position len j0) ! i =
     (if j0 \<le> int i \<and> int i < position + len
      then min (costs m ! i) (dc + cost_cache m ! nat (int i - position))
      else costs m ! i)"
proof (induction m dc position len j0 rule: push_small.induct)
  case (1 m dc position len j0)
  show ?case
  proof (cases "j0 < position + len")
    case True
    let ?m1 = "small_step m dc position j0"
    have i1: "i < length (costs ?m1)" using "1.prems" by (simp add: small_step_fields)
    have j1: "0 \<le> j0 + 1" using "1.prems" by simp
    have ih: "costs (push_small ?m1 dc position len (j0 + 1)) ! i =
      (if j0 + 1 \<le> int i \<and> int i < position + len
       then min (costs ?m1 ! i) (dc + cost_cache ?m1 ! nat (int i - position))
       else costs ?m1 ! i)"
      using "1.IH"[OF True refl refl j1] i1 by (simp add: small_step_def)
    have eq: "push_small m dc position len j0 = push_small ?m1 dc position len (j0 + 1)"
      using True by (subst push_small_unfold) simp
    show ?thesis
      unfolding eq ih small_step_fields small_step_costs[OF "1.prems"]
      using True by auto
  next
    case False
    then show ?thesis by (subst push_small_unfold) simp
  qed
qed

lemma push_small_dist:
  "0 \<le> j0 \<Longrightarrow> i < length (costs m) \<Longrightarrow> i < length (dist_array m) \<Longrightarrow>
   dist_array (push_small m dc position len j0) ! i =
     (if j0 \<le> int i \<and> int i < position + len \<and>
         dc + cost_cache m ! nat (int i - position) < costs m ! i
      then nat ((int i - position + 1) mod 65536)
      else dist_array m ! i)"
proof (induction m dc position len j0 rule: push_small.induct)
  case (1 m dc position len j0)
  show ?case
  proof (cases "j0 < position + len")
    case True
    let ?m1 = "small_step m dc position j0"
    have i1: "i < length (costs ?m1)" "i < length (dist_array ?m1)"
      using "1.prems" by (simp_all add: small_step_fields)
    have j1: "0 \<le> j0 + 1" using "1.prems" by simp
    have ih: "dist_array (push_small ?m1 dc position len (j0 + 1)) ! i =
      (if j0 + 1 \<le> int i \<and> int i < position + len \<and>
          dc + cost_cache ?m1 ! nat (int i - position) < costs ?m1 ! i
       then nat ((int i - position + 1) mod 65536)
       else dist_array ?m1 ! i)"
      using "1.IH"[OF True refl refl j1] i1 by (simp add: small_step_def)
    have eq: "push_small m dc position len j0 = push_small ?m1 dc position len (j0 + 1)"
      using True by (subst push_small_unfold) simp
    show ?thesis
      unfolding eq ih small_step_fields small_step_costs[OF "1.prems"(1,2)]
        small_step_dist[OF "1.prems"(1,3)]
      using True by auto
  next
    case False
    then show ?thesis by (subst push_small_unfold) simp
  qed
qed

text \<open>A pointer is valid when it is \<^verbatim>\<open>NULL\<close> or the position of a node of the list.\<close>

definition valid_ptr :: "CostInterval list \<Rightarrow> nat option \<Rightarrow> bool" where
  "valid_ptr xs ptr = (case ptr of None \<Rightarrow> True | Some p \<Rightarrow> p < length xs)"

lemma valid_ptr_simps [simp]:
  "valid_ptr xs None" "valid_ptr xs (Some p) = (p < length xs)"
  by (simp_all add: valid_ptr_def)

lemma valid_head_ptr [simp]: "valid_ptr xs (head_ptr xs)"
  by (simp add: head_ptr_def)

lemma valid_next_of [simp]: "valid_ptr xs (next_of xs p)"
  by (simp add: next_of_def)

lemma valid_next_pop:
  "p < length xs \<Longrightarrow> valid_ptr (take p xs @ drop (Suc p) xs) (ptr_after_pop p (next_of xs p))"
  by (auto simp: next_of_def ptr_after_pop_def)

lemma update_at_loop_unfold:
  "update_at_loop m (Some p) i c =
     (if i_start (head m ! p) \<le> i
      then (if i_end (head m ! p) \<le> i
            then (if c then update_at_loop (PopInterval m (Some p))
                             (ptr_after_pop p (next_of (head m) p)) i c
                  else update_at_loop m (next_of (head m) p) i c)
            else update_at_loop (UpdateCost m i (i_index (head m ! p)) (i_cost (head m ! p)))
                   (next_of (head m) p) i c)
      else m)"
  "update_at_loop m None i c = m"
  by (subst update_at_loop.simps, simp add: Let_def)+

text \<open>An invariant of the loop of \<^verbatim>\<open>UpdateCostAtIndex\<close>.\<close>

lemma update_at_loop_rule:
  assumes "P m" "valid_ptr (head m) cur"
    and pop: "\<And>m p. P m \<Longrightarrow> p < length (head m) \<Longrightarrow> c \<Longrightarrow> i_start (head m ! p) \<le> i \<Longrightarrow>
                i_end (head m ! p) \<le> i \<Longrightarrow> P (PopInterval m (Some p))"
    and upd: "\<And>m p. P m \<Longrightarrow> p < length (head m) \<Longrightarrow> i_start (head m ! p) \<le> i \<Longrightarrow>
                i < i_end (head m ! p) \<Longrightarrow>
                P (UpdateCost m i (i_index (head m ! p)) (i_cost (head m ! p)))"
  shows "P (update_at_loop m cur i c)"
  using assms
proof (induction m cur i c rule: update_at_loop.induct)
  case (1 m cur i c)
  note pop = "1.prems"(3) and upd = "1.prems"(4)
  show ?case
  proof (cases cur)
    case None
    then show ?thesis using "1.prems" by (simp add: update_at_loop_unfold)
  next
    case (Some p)
    then have p: "p < length (head m)" using "1.prems" by simp
    show ?thesis
    proof (cases "i_start (head m ! p) \<le> i")
      case False
      then show ?thesis using "1.prems" Some by (simp add: update_at_loop_unfold)
    next
      case s: True
      show ?thesis
      proof (cases "i_end (head m ! p) \<le> i")
        case e: True
        show ?thesis
        proof (cases c)
          case True
          have "P (PopInterval m (Some p))" using pop "1.prems" p True s e by blast
          moreover have "valid_ptr (head (PopInterval m (Some p)))
                           (ptr_after_pop p (next_of (head m) p))"
            using valid_next_pop[OF p] by (simp add: head_PopInterval)
          ultimately show ?thesis
            using "1.IH"(1)[OF Some s refl e True _ _ pop upd] Some s e True
            by (simp add: update_at_loop_unfold)
        next
          case False
          show ?thesis
            using "1.IH"(2)[OF Some s refl e False "1.prems"(1) _ pop upd] Some s e False
            by (simp add: update_at_loop_unfold)
        qed
      next
        case e: False
        have "P (UpdateCost m i (i_index (head m ! p)) (i_cost (head m ! p)))"
          using upd "1.prems" p s e by simp
        moreover have "valid_ptr (head (UpdateCost m i (i_index (head m ! p)) (i_cost (head m ! p))))
            (next_of (head m) p)"
          by (simp add: head_UpdateCost)
        ultimately show ?thesis
          using "1.IH"(3)[OF Some s refl e _ _ pop upd] Some s e
          by (simp add: update_at_loop_unfold)
      qed
    qed
  qed
qed

lemma UpdateCostAtIndex_rule:
  assumes "P m"
    and "\<And>m p. P m \<Longrightarrow> p < length (head m) \<Longrightarrow> c \<Longrightarrow> i_start (head m ! p) \<le> i \<Longrightarrow>
                i_end (head m ! p) \<le> i \<Longrightarrow> P (PopInterval m (Some p))"
    and "\<And>m p. P m \<Longrightarrow> p < length (head m) \<Longrightarrow> i_start (head m ! p) \<le> i \<Longrightarrow>
                i < i_end (head m ! p) \<Longrightarrow>
                P (UpdateCost m i (i_index (head m ! p)) (i_cost (head m ! p)))"
  shows "P (UpdateCostAtIndex m i c)"
  unfolding UpdateCostAtIndex_def
  by (rule update_at_loop_rule[of P, OF assms(1) valid_head_ptr assms(2,3)])

subsection \<open>Two concrete managers\<close>

text \<open>
  A manager of an image of 40 pixels with an empty list, three free records and an
  allocator that succeeds, fails, then succeeds; and the manager it becomes after
  \<^verbatim>\<open>PushInterval(manager, 5, 3, 12)\<close>.
\<close>

definition example_cache_intervals :: "CostCacheInterval list" where
  "example_cache_intervals =
     [\<lparr>c_cost = 0, c_start = 0, c_end = 1\<rparr>, \<lparr>c_cost = 1, c_start = 1, c_end = 3\<rparr>,
      \<lparr>c_cost = 2, c_start = 3, c_end = 7\<rparr>, \<lparr>c_cost = 3, c_start = 7, c_end = 15\<rparr>,
      \<lparr>c_cost = 4, c_start = 15, c_end = 20\<rparr>]"

definition example_manager :: CostManager where
  "example_manager =
     \<lparr>head = [], count = 0, cache_intervals = example_cache_intervals,
      cost_cache = [0, 1, 1, 2, 2, 2, 2, 3, 3, 3, 3, 3, 3, 3, 3, 4, 4, 4, 4, 4],
      costs = replicate 40 1000, dist_array = replicate 40 0,
      free_intervals = [2, 1, 0], recycled_intervals = [],
      malloc_results = [Some 10, None, Some 11]\<rparr>"

definition example_manager_pushed :: CostManager where
  "example_manager_pushed =
     \<lparr>head = [\<lparr>i_cost = 5, i_start = 3, i_end = 4, i_index = 3, i_addr = 2\<rparr>,
              \<lparr>i_cost = 6, i_start = 4, i_end = 6, i_index = 3, i_addr = 1\<rparr>,
              \<lparr>i_cost = 7, i_start = 6, i_end = 10, i_index = 3, i_addr = 0\<rparr>,
              \<lparr>i_cost = 8, i_start = 10, i_end = 15, i_index = 3, i_addr = 10\<rparr>],
      count = 4, cache_intervals = example_cache_intervals,
      cost_cache = [0, 1, 1, 2, 2, 2, 2, 3, 3, 3, 3, 3, 3, 3, 3, 4, 4, 4, 4, 4],
      costs = replicate 40 1000, dist_array = replicate 40 0,
      free_intervals = [], recycled_intervals = [],
      malloc_results = [None, Some 11]\<rparr>"

lemma example_manager_pushed_eq:
  "PushInterval example_manager 5 3 12 = example_manager_pushed"
  by code_simp

text \<open>
  Claim C7. A call \<^verbatim>\<open>PushInterval(manager, distance_cost, position, len)\<close> with
  \<open>len < 10\<close> leaves the list, \<^verbatim>\<open>count\<close> and the free and recycled lists as they are;
  for every \<open>k\<close> in \<open>[0, len)\<close> it sets \<open>costs[position + k]\<close> to the minimum of its
  old value and \<open>distance_cost + cost_cache[k]\<close>, and \<open>dist_array[position + k]\<close> to
  \<open>k + 1\<close> when the new value is strictly smaller; it writes nothing else.
  (\<open>i\<close> below is the pixel \<open>position + k\<close>.)
\<close>

theorem PushInterval_short_path:
  assumes "len < 10" "0 \<le> position"
  shows "head (PushInterval m dc position len) = head m \<and>
         count (PushInterval m dc position len) = count m \<and>
         free_intervals (PushInterval m dc position len) = free_intervals m \<and>
         recycled_intervals (PushInterval m dc position len) = recycled_intervals m \<and>
         length (costs (PushInterval m dc position len)) = length (costs m) \<and>
         length (dist_array (PushInterval m dc position len)) = length (dist_array m) \<and>
         (\<forall>i < length (costs m).
            costs (PushInterval m dc position len) ! i =
              (if position \<le> int i \<and> int i < position + len
               then min (costs m ! i) (dc + cost_cache m ! nat (int i - position))
               else costs m ! i)) \<and>
         (\<forall>i. i < length (costs m) \<longrightarrow> i < length (dist_array m) \<longrightarrow>
            dist_array (PushInterval m dc position len) ! i =
              (if position \<le> int i \<and> int i < position + len \<and>
                  dc + cost_cache m ! nat (int i - position) < costs m ! i
               then nat (int i - position + 1)
               else dist_array m ! i))"
proof -
  have eq: "PushInterval m dc position len = push_small m dc position len position"
    using assms by (simp add: PushInterval_def kSkipDistance_def)
  have md: "(int i - position + 1) mod 65536 = int i - position + 1"
    if "position \<le> int i" "int i < position + len" for i
    using that assms by simp
  show ?thesis
    unfolding eq
    using only_costs_fields[OF push_small_only_costs[of m dc position len position]]
      push_small_length[of m dc position len position]
      push_small_costs[where ?j0.0 = position and m = m and dc = dc and position = position
        and len = len, OF assms(2)]
      push_small_dist[where ?j0.0 = position and m = m and dc = dc and position = position
        and len = len, OF assms(2)] md
    by auto
qed

theorem PushInterval_short_path_witness:
  "head (PushInterval example_manager_pushed 2 8 4) = head example_manager_pushed \<and>
   count (PushInterval example_manager_pushed 2 8 4) = 4 \<and>
   costs (PushInterval example_manager_pushed 2 8 4) ! 9 = 3 \<and>
   dist_array (PushInterval example_manager_pushed 2 8 4) ! 9 = 2 \<and>
   costs (PushInterval example_manager_pushed 2 8 4) ! 12 = 1000"
proof -
  have h: "(4::int) < 10" "(0::int) \<le> 8" by simp_all
  from PushInterval_short_path[OF h, of example_manager_pushed 2]
  show ?thesis by (simp add: example_manager_pushed_def)
qed

lemma UpdateCost_other:
  "j \<noteq> nat i \<Longrightarrow>
   costs (UpdateCost m i position cost) ! j = costs m ! j \<and>
   dist_array (UpdateCost m i position cost) ! j = dist_array m ! j"
  by (simp add: UpdateCost_def Let_def)

lemma UpdateCost_noop:
  "costs m ! nat i \<le> cost \<Longrightarrow> UpdateCost m i position cost = m"
  by (simp add: UpdateCost_def Let_def)

text \<open>
  Claim C10. \<^verbatim>\<open>UpdateCostAtIndex(manager, i, 0)\<close> leaves the list, \<^verbatim>\<open>count\<close> and the free
  and recycled lists as they are; it writes at most \<open>costs[i]\<close> and \<open>dist_array[i]\<close>,
  and nothing at all unless some interval of the list covers \<open>i\<close> with a cost strictly
  below \<open>costs[i]\<close>.
\<close>

theorem UpdateCostAtIndex_no_clean:
  "head (UpdateCostAtIndex m i False) = head m \<and>
   count (UpdateCostAtIndex m i False) = count m \<and>
   free_intervals (UpdateCostAtIndex m i False) = free_intervals m \<and>
   recycled_intervals (UpdateCostAtIndex m i False) = recycled_intervals m \<and>
   length (costs (UpdateCostAtIndex m i False)) = length (costs m) \<and>
   length (dist_array (UpdateCostAtIndex m i False)) = length (dist_array m) \<and>
   (\<forall>j. j \<noteq> nat i \<longrightarrow>
      costs (UpdateCostAtIndex m i False) ! j = costs m ! j \<and>
      dist_array (UpdateCostAtIndex m i False) ! j = dist_array m ! j) \<and>
   ((\<forall>I \<in> set (head m). i_start I \<le> i \<and> i < i_end I \<longrightarrow> costs m ! nat i \<le> i_cost I) \<longrightarrow>
      UpdateCostAtIndex m i False = m)"
proof -
  let ?P = "\<lambda>m'. only_costs m m' \<and> length (costs m') = length (costs m) \<and>
     length (dist_array m') = length (dist_array m) \<and>
     (\<forall>j. j \<noteq> nat i \<longrightarrow> costs m' ! j = costs m ! j \<and> dist_array m' ! j = dist_array m ! j)"
  have a: "?P (UpdateCostAtIndex m i False)"
  proof (rule UpdateCostAtIndex_rule[where P = ?P])
    show "?P m" by (simp add: only_costs_refl)
  next
    fix m' p
    assume "?P m'"
    then show "?P (UpdateCost m' i (i_index (head m' ! p)) (i_cost (head m' ! p)))"
      using only_costs_trans[OF _ only_costs_UpdateCost, of m m']
      by (simp add: UpdateCost_length UpdateCost_other)
  qed simp
  have b: "UpdateCostAtIndex m i False = m"
    if h: "\<forall>I \<in> set (head m). i_start I \<le> i \<and> i < i_end I \<longrightarrow> costs m ! nat i \<le> i_cost I"
  proof (rule UpdateCostAtIndex_rule[where P = "\<lambda>m'. m' = m"])
    fix m' p
    assume "m' = m" "p < length (head m')" "i_start (head m' ! p) \<le> i" "i < i_end (head m' ! p)"
    then show "UpdateCost m' i (i_index (head m' ! p)) (i_cost (head m' ! p)) = m"
      using h by (simp add: UpdateCost_noop)
  qed simp_all
  from a b only_costs_fields[of m "UpdateCostAtIndex m i False"] show ?thesis by blast
qed

text \<open>
  In the second example manager pixel \<open>9\<close> is covered by the interval \<open>[6, 10)\<close> of
  cost \<open>7\<close>; after \<open>costs[9]\<close> was lowered to \<open>7\<close> a second call writes nothing.
\<close>

theorem UpdateCostAtIndex_no_clean_witness:
  "head (UpdateCostAtIndex example_manager_pushed 9 False) = head example_manager_pushed \<and>
   count (UpdateCostAtIndex example_manager_pushed 9 False) = 4 \<and>
   costs (UpdateCostAtIndex example_manager_pushed 9 False) ! 8 = 1000 \<and>
   UpdateCostAtIndex (UpdateCostAtIndex example_manager_pushed 9 False) 9 False =
     UpdateCostAtIndex example_manager_pushed 9 False"
proof -
  have e: "UpdateCostAtIndex example_manager_pushed 9 False =
     example_manager_pushed\<lparr>costs := (costs example_manager_pushed)[9 := 7],
        dist_array := (dist_array example_manager_pushed)[9 := 7]\<rparr>"
    by code_simp
  have h: "\<forall>I \<in> set (head (UpdateCostAtIndex example_manager_pushed 9 False)).
     i_start I \<le> 9 \<and> 9 < i_end I \<longrightarrow>
     costs (UpdateCostAtIndex example_manager_pushed 9 False) ! nat 9 \<le> i_cost I"
    unfolding e by (simp add: example_manager_pushed_def)
  from UpdateCostAtIndex_no_clean[of example_manager_pushed 9]
    UpdateCostAtIndex_no_clean[of "UpdateCostAtIndex example_manager_pushed 9 False" 9] h
  show ?thesis by (simp add: example_manager_pushed_def)
qed

subsection \<open>The effective best-known cost\<close>

text \<open>
  The best cost known for pixel \<open>j\<close>: the minimum of \<open>costs[j]\<close> and of the costs of
  the intervals of the list that cover \<open>j\<close>.
\<close>

fun eff_list :: "CostInterval list \<Rightarrow> int \<Rightarrow> int \<Rightarrow> int" where
  "eff_list [] j c = c"
| "eff_list (I # xs) j c =
     (if i_start I \<le> j \<and> j < i_end I then min (i_cost I) (eff_list xs j c)
      else eff_list xs j c)"

definition effective_cost :: "CostManager \<Rightarrow> int \<Rightarrow> int" where
  "effective_cost m j = eff_list (head m) j (costs m ! nat j)"

text \<open>The relaxation of a value at pixel \<open>j\<close> by a flat segment \<open>[s, e)\<close> of cost \<open>c\<close>.\<close>

definition seg_min :: "int \<Rightarrow> int \<Rightarrow> int \<Rightarrow> int \<Rightarrow> int \<Rightarrow> int" where
  "seg_min c s e j x = (if s \<le> j \<and> j < e then min c x else x)"

lemma eff_list_min: "eff_list xs j (min a c) = min a (eff_list xs j c)"
  by (induction xs) (auto simp: min_def)

lemma eff_list_append: "eff_list (xs @ ys) j c = eff_list xs j (eff_list ys j c)"
  by (induction xs) (auto simp: eff_list_min)

lemma eff_list_le: "eff_list xs j c \<le> c"
  by (induction xs) (auto simp: min_def)

lemma eff_list_swap:
  "eff_list (xs @ I # ys) j c = eff_list (I # xs @ ys) j c"
  by (induction xs) (auto simp: min_def)

lemma eff_list_insert:
  "eff_list (take q xs @ I # drop q xs) j c = eff_list (I # xs) j c"
  using eff_list_swap[of "take q xs" I "drop q xs" j c] by simp

lemma eff_list_nth:
  "p < length xs \<Longrightarrow> eff_list xs j c = eff_list (xs ! p # take p xs @ drop (Suc p) xs) j c"
  using eff_list_swap[of "take p xs" "xs ! p" "drop (Suc p) xs" j c]
  by (simp add: id_take_nth_drop[symmetric])

lemma eff_list_update:
  "p < length xs \<Longrightarrow>
   eff_list (xs[p := I]) j c = eff_list (I # take p xs @ drop (Suc p) xs) j c"
  using eff_list_swap[of "take p xs" I "drop (Suc p) xs" j c]
  by (simp add: upd_conv_take_nth_drop)

lemma eff_list_covered:
  "I \<in> set xs \<Longrightarrow> i_start I \<le> j \<Longrightarrow> j < i_end I \<Longrightarrow> eff_list xs j c \<le> i_cost I"
  by (induction xs) (auto simp: min_def)

text \<open>What \<^verbatim>\<open>UpdateCostPerInterval\<close> writes.\<close>

lemma UpdateCostPerInterval_unfold:
  "UpdateCostPerInterval m s e position cost =
     (if s < e then UpdateCostPerInterval (UpdateCost m s position cost) (s + 1) e position cost
      else m)"
  by (subst UpdateCostPerInterval.simps) simp

lemma only_costs_UpdateCostPerInterval:
  "only_costs m (UpdateCostPerInterval m s e position cost)"
proof (induction m s e position cost rule: UpdateCostPerInterval.induct)
  case (1 m s e position cost)
  show ?case
  proof (cases "s < e")
    case True
    from only_costs_trans[OF only_costs_UpdateCost "1.IH"[OF True]] True
    show ?thesis by (subst UpdateCostPerInterval_unfold) simp
  next
    case False
    then show ?thesis by (subst UpdateCostPerInterval_unfold) (simp add: only_costs_refl)
  qed
qed

lemma UpdateCostPerInterval_length:
  "length (costs (UpdateCostPerInterval m s e position cost)) = length (costs m) \<and>
   length (dist_array (UpdateCostPerInterval m s e position cost)) = length (dist_array m)"
proof (induction m s e position cost rule: UpdateCostPerInterval.induct)
  case (1 m s e position cost)
  show ?case
  proof (cases "s < e")
    case True
    from "1.IH"[OF True] True show ?thesis
      by (subst UpdateCostPerInterval_unfold, subst (2) UpdateCostPerInterval_unfold)
         (simp add: UpdateCost_length)
  next
    case False
    then show ?thesis
      by (subst UpdateCostPerInterval_unfold, subst (2) UpdateCostPerInterval_unfold) simp
  qed
qed

lemma UpdateCostPerInterval_costs:
  "0 \<le> s \<Longrightarrow> i < length (costs m) \<Longrightarrow>
   costs (UpdateCostPerInterval m s e position cost) ! i =
     (if s \<le> int i \<and> int i < e then min cost (costs m ! i) else costs m ! i)"
proof (induction m s e position cost rule: UpdateCostPerInterval.induct)
  case (1 m s e position cost)
  show ?case
  proof (cases "s < e")
    case True
    have s1: "0 \<le> s + 1" using "1.prems" by simp
    have i1: "i < length (costs (UpdateCost m s position cost))"
      using "1.prems" by (simp add: UpdateCost_length)
    have n: "(i = nat s) = (int i = s)" using "1.prems" by auto
    show ?thesis
      using True "1.prems"
      by (subst UpdateCostPerInterval_unfold)
         (auto simp: "1.IH"[OF True s1 i1] UpdateCost_costs_nth n)
  next
    case False
    then show ?thesis by (subst UpdateCostPerInterval_unfold) simp
  qed
qed

lemma effective_cost_UpdateCostPerInterval:
  assumes "0 \<le> s" "0 \<le> j" "nat j < length (costs m)"
  shows "effective_cost (UpdateCostPerInterval m s e position cost) j =
           seg_min cost s e j (effective_cost m j)"
proof -
  have "costs (UpdateCostPerInterval m s e position cost) ! nat j =
          seg_min cost s e j (costs m ! nat j)"
    using UpdateCostPerInterval_costs[OF assms(1,3), of e position cost] assms(2)
    by (simp add: seg_min_def)
  then show ?thesis
    by (simp add: effective_cost_def head_UpdateCostPerInterval seg_min_def eff_list_min)
qed

lemma effective_cost_malloc [simp]:
  "effective_cost (m\<lparr>malloc_results := r\<rparr>) j = effective_cost m j"
  by (simp add: effective_cost_def)

lemma effective_cost_InsertInterval:
  assumes "0 \<le> s" "0 \<le> j" "nat j < length (costs m)"
  shows "effective_cost (fst (InsertInterval m hint cost position s e)) j =
           seg_min cost s e j (effective_cost m j)"
proof (cases "s < e")
  case False
  then show ?thesis by (simp add: InsertInterval_empty seg_min_def)
next
  case True
  show ?thesis
  proof (cases "will_store m s e")
    case False
    from InsertInterval_serialize[OF True False, of hint cost position]
    obtain r where "InsertInterval m hint cost position s e =
           ((UpdateCostPerInterval m s e position cost)\<lparr>malloc_results := r\<rparr>, None)"
      by blast
    then show ?thesis by (simp add: effective_cost_UpdateCostPerInterval[OF assms])
  next
    case True
    from InsertInterval_store[OF True, of hint cost position]
    obtain f r ml where "InsertInterval m hint cost position s e =
           (m\<lparr>head := take (orphan_position (head m) s hint) (head m) @
                \<lparr>i_cost = cost, i_start = s, i_end = e, i_index = position,
                   i_addr = new_addr m\<rparr> #
                drop (orphan_position (head m) s hint) (head m),
              count := count m + 1,
              free_intervals := f, recycled_intervals := r, malloc_results := ml\<rparr>,
            Some (orphan_position (head m) s hint))"
      by blast
    then show ?thesis
      by (simp add: effective_cost_def eff_list_insert seg_min_def)
  qed
qed

lemma InsertInterval_length:
  "length (costs (fst (InsertInterval m hint cost position s e))) = length (costs m) \<and>
   length (dist_array (fst (InsertInterval m hint cost position s e))) = length (dist_array m)"
proof (cases "s < e")
  case False
  then show ?thesis by (simp add: InsertInterval_empty)
next
  case True
  show ?thesis
  proof (cases "will_store m s e")
    case False
    from InsertInterval_serialize[OF True False, of hint cost position]
    show ?thesis by (auto simp: UpdateCostPerInterval_length)
  next
    case True
    from InsertInterval_store[OF True, of hint cost position]
    show ?thesis by auto
  qed
qed

text \<open>
  Claim C8. \<^verbatim>\<open>InsertInterval\<close> returns nothing and cannot fail. For \<open>start < end\<close>: when
  the list already holds \<open>COST_CACHE_INTERVAL_SIZE_MAX\<close> intervals, or when there is no
  free and no recycled node and the allocation fails, no node is stored, the list and
  \<^verbatim>\<open>count\<close> stay as they are, and \<open>costs[start..end)\<close> is relaxed pixel by pixel (what
  \<^verbatim>\<open>UpdateCostPerInterval\<close> does); and in every case the effective best-known cost of a
  pixel \<open>j\<close> becomes its minimum with \<open>cost\<close> inside \<open>[start, end)\<close> and is unchanged
  outside, which is the effect of storing the interval.
\<close>

theorem InsertInterval_never_fails:
  assumes "start < end" "0 \<le> start"
  shows "(count m \<ge> COST_CACHE_INTERVAL_SIZE_MAX \<or>
          (free_intervals m = [] \<and> recycled_intervals m = [] \<and>
           (\<forall>a rest. malloc_results m \<noteq> Some a # rest)) \<longrightarrow>
            snd (InsertInterval m hint cost position start end) = None \<and>
            head (fst (InsertInterval m hint cost position start end)) = head m \<and>
            count (fst (InsertInterval m hint cost position start end)) = count m \<and>
            costs (fst (InsertInterval m hint cost position start end)) =
              costs (UpdateCostPerInterval m start end position cost) \<and>
            dist_array (fst (InsertInterval m hint cost position start end)) =
              dist_array (UpdateCostPerInterval m start end position cost)) \<and>
         (\<forall>i < length (costs m).
            costs (UpdateCostPerInterval m start end position cost) ! i =
              (if start \<le> int i \<and> int i < end then min cost (costs m ! i) else costs m ! i)) \<and>
         (\<forall>j. 0 \<le> j \<and> nat j < length (costs m) \<longrightarrow>
            effective_cost (fst (InsertInterval m hint cost position start end)) j =
              (if start \<le> j \<and> j < end then min cost (effective_cost m j)
               else effective_cost m j))"
proof (intro conjI impI allI)
  assume a: "count m \<ge> COST_CACHE_INTERVAL_SIZE_MAX \<or>
          (free_intervals m = [] \<and> recycled_intervals m = [] \<and>
           (\<forall>a rest. malloc_results m \<noteq> Some a # rest))"
  then have "\<not> will_store m start end" by (auto simp: will_store_def)
  from InsertInterval_serialize[OF assms(1) this, of hint cost position]
  obtain r where r: "InsertInterval m hint cost position start end =
           ((UpdateCostPerInterval m start end position cost)\<lparr>malloc_results := r\<rparr>, None)"
    by blast
  show "snd (InsertInterval m hint cost position start end) = None" using r by simp
  show "head (fst (InsertInterval m hint cost position start end)) = head m"
    using r by (simp add: head_UpdateCostPerInterval)
  show "count (fst (InsertInterval m hint cost position start end)) = count m"
    using r only_costs_fields(2)[OF only_costs_UpdateCostPerInterval] by simp
  show "costs (fst (InsertInterval m hint cost position start end)) =
              costs (UpdateCostPerInterval m start end position cost)"
    using r by simp
  show "dist_array (fst (InsertInterval m hint cost position start end)) =
              dist_array (UpdateCostPerInterval m start end position cost)"
    using r by simp
next
  fix i assume "i < length (costs m)"
  from UpdateCostPerInterval_costs[OF assms(2) this]
  show "costs (UpdateCostPerInterval m start end position cost) ! i =
              (if start \<le> int i \<and> int i < end then min cost (costs m ! i) else costs m ! i)" .
next
  fix j assume "0 \<le> j \<and> nat j < length (costs m)"
  then show "effective_cost (fst (InsertInterval m hint cost position start end)) j =
              (if start \<le> j \<and> j < end then min cost (effective_cost m j)
               else effective_cost m j)"
    using effective_cost_InsertInterval[OF assms(2), of j m hint cost position "end"]
    by (simp add: seg_min_def)
qed

text \<open>
  The second example manager has no free and no recycled node, and its next allocation
  fails.
\<close>

theorem InsertInterval_never_fails_witness:
  "snd (InsertInterval example_manager_pushed None 3 20 20 23) = None \<and>
   head (fst (InsertInterval example_manager_pushed None 3 20 20 23)) =
     head example_manager_pushed \<and>
   count (fst (InsertInterval example_manager_pushed None 3 20 20 23)) = 4 \<and>
   costs (UpdateCostPerInterval example_manager_pushed 20 23 20 3) ! 21 = 3 \<and>
   effective_cost (fst (InsertInterval example_manager_pushed None 3 20 20 23)) 21 = 3 \<and>
   effective_cost (fst (InsertInterval example_manager_pushed None 3 20 20 23)) 9 = 7"
proof -
  have h: "(20::int) < 23" "(0::int) \<le> 20" by simp_all
  have e: "effective_cost example_manager_pushed 21 = 1000"
    "effective_cost example_manager_pushed 9 = 7"
    by (simp_all add: effective_cost_def example_manager_pushed_def)
  from InsertInterval_never_fails[OF h, of example_manager_pushed None 3 20] e
  show ?thesis by (simp add: example_manager_pushed_def)
qed

subsection \<open>The inner loop of PushInterval keeps the pending relaxation\<close>

lemma InsertInterval_result:
  assumes "InsertInterval m hint cost position s e = (m', q)"
  shows "length (costs m') = length (costs m)"
    "length (dist_array m') = length (dist_array m)"
    "0 \<le> s \<Longrightarrow> 0 \<le> j \<Longrightarrow> nat j < length (costs m) \<Longrightarrow>
       effective_cost m' j = seg_min cost s e j (effective_cost m j)"
    "valid_ptr (head m) ptr \<Longrightarrow> valid_ptr (head m') (ptr_after_insert q ptr)"
proof -
  have f: "m' = fst (InsertInterval m hint cost position s e)" using assms by simp
  show "length (costs m') = length (costs m)" "length (dist_array m') = length (dist_array m)"
    unfolding f using InsertInterval_length by blast+
  show "0 \<le> s \<Longrightarrow> 0 \<le> j \<Longrightarrow> nat j < length (costs m) \<Longrightarrow>
       effective_cost m' j = seg_min cost s e j (effective_cost m j)"
    unfolding f by (rule effective_cost_InsertInterval)
  show "valid_ptr (head m) ptr \<Longrightarrow> valid_ptr (head m') (ptr_after_insert q ptr)"
    using head_InsertInterval[OF assms]
    by (cases ptr) (auto simp: ptr_after_insert_def)
qed

lemma PopInterval_costs [simp]:
  "costs (PopInterval m ptr) = costs m" "dist_array (PopInterval m ptr) = dist_array m"
  by (simp_all add: PopInterval_def Let_def split: option.splits)

lemma push_step_skip:
  "start \<ge> i_end (head m ! p) \<Longrightarrow>
   push_step m p start end cost position = (True, m, next_of (head m) p, start)"
  by (simp add: push_step_def Let_def)

lemma push_step_worse:
  "start < i_end (head m ! p) \<Longrightarrow> cost \<ge> i_cost (head m ! p) \<Longrightarrow>
   push_step m p start end cost position =
     (case InsertInterval m (Some p) cost position start (i_start (head m ! p)) of
        (m', q) \<Rightarrow>
          if i_end (head m ! p) \<ge> end
          then (False, m', ptr_after_insert q (Some p), i_end (head m ! p))
          else (True, m', ptr_after_insert q (next_of (head m) p), i_end (head m ! p)))"
  by (simp add: push_step_def Let_def)

lemma push_step_pop:
  "start < i_end (head m ! p) \<Longrightarrow> cost < i_cost (head m ! p) \<Longrightarrow>
   start \<le> i_start (head m ! p) \<Longrightarrow> i_end (head m ! p) \<le> end \<Longrightarrow>
   push_step m p start end cost position =
     (True, PopInterval m (Some p), ptr_after_pop p (next_of (head m) p), start)"
  by (simp add: push_step_def Let_def)

lemma push_step_left:
  "start < i_end (head m ! p) \<Longrightarrow> cost < i_cost (head m ! p) \<Longrightarrow>
   start \<le> i_start (head m ! p) \<Longrightarrow> end < i_end (head m ! p) \<Longrightarrow>
   push_step m p start end cost position =
     (False, m\<lparr>head := (head m)[p := (head m ! p)\<lparr>i_start := end\<rparr>]\<rparr>, Some p, start)"
  by (simp add: push_step_def Let_def)

lemma push_step_split:
  "start < i_end (head m ! p) \<Longrightarrow> cost < i_cost (head m ! p) \<Longrightarrow>
   i_start (head m ! p) < start \<Longrightarrow> end < i_end (head m ! p) \<Longrightarrow>
   push_step m p start end cost position =
     (case InsertInterval (m\<lparr>head := (head m)[p := (head m ! p)\<lparr>i_end := start\<rparr>]\<rparr>) (Some p)
             (i_cost (head m ! p)) (i_index (head m ! p)) end (i_end (head m ! p)) of
        (m', q) \<Rightarrow>
          (False, m',
           (case ptr_after_insert q (Some p) of None \<Rightarrow> None
            | Some p' \<Rightarrow> next_of (head m') p'),
           start))"
  by (simp add: push_step_def Let_def)

lemma push_step_right:
  "start < i_end (head m ! p) \<Longrightarrow> cost < i_cost (head m ! p) \<Longrightarrow>
   i_start (head m ! p) < start \<Longrightarrow> i_end (head m ! p) \<le> end \<Longrightarrow>
   push_step m p start end cost position =
     (True, m\<lparr>head := (head m)[p := (head m ! p)\<lparr>i_end := start\<rparr>]\<rparr>,
      next_of (head m) p, start)"
  by (simp add: push_step_def Let_def)

lemma push_step_cases:
  assumes "push_step m p start end cost position = (b, m', ptr', start')"
  obtains
    (skip) "start \<ge> i_end (head m ! p)" "b" "m' = m" "ptr' = next_of (head m) p" "start' = start"
  | (worse) q where "start < i_end (head m ! p)" "cost \<ge> i_cost (head m ! p)"
      "InsertInterval m (Some p) cost position start (i_start (head m ! p)) = (m', q)"
      "start' = i_end (head m ! p)" "b = (i_end (head m ! p) < end)"
      "ptr' = (if b then ptr_after_insert q (next_of (head m) p)
               else ptr_after_insert q (Some p))"
  | (pop) "start < i_end (head m ! p)" "cost < i_cost (head m ! p)"
      "start \<le> i_start (head m ! p)" "i_end (head m ! p) \<le> end" "b"
      "m' = PopInterval m (Some p)" "ptr' = ptr_after_pop p (next_of (head m) p)"
      "start' = start"
  | (left) "start < i_end (head m ! p)" "cost < i_cost (head m ! p)"
      "start \<le> i_start (head m ! p)" "end < i_end (head m ! p)" "\<not> b"
      "m' = m\<lparr>head := (head m)[p := (head m ! p)\<lparr>i_start := end\<rparr>]\<rparr>" "ptr' = Some p"
      "start' = start"
  | (split) q where "start < i_end (head m ! p)" "cost < i_cost (head m ! p)"
      "i_start (head m ! p) < start" "end < i_end (head m ! p)" "\<not> b"
      "InsertInterval (m\<lparr>head := (head m)[p := (head m ! p)\<lparr>i_end := start\<rparr>]\<rparr>) (Some p)
         (i_cost (head m ! p)) (i_index (head m ! p)) end (i_end (head m ! p)) = (m', q)"
      "ptr' = (case ptr_after_insert q (Some p) of None \<Rightarrow> None
               | Some p' \<Rightarrow> next_of (head m') p')"
      "start' = start"
  | (right) "start < i_end (head m ! p)" "cost < i_cost (head m ! p)"
      "i_start (head m ! p) < start" "i_end (head m ! p) \<le> end" "b"
      "m' = m\<lparr>head := (head m)[p := (head m ! p)\<lparr>i_end := start\<rparr>]\<rparr>"
      "ptr' = next_of (head m) p" "start' = start"
proof (cases "start \<ge> i_end (head m ! p)")
  case True
  have "(b, m', ptr', start') = (True, m, next_of (head m) p, start)"
    using assms unfolding push_step_skip[OF True] by (rule sym)
  then show ?thesis using skip[OF True] by blast
next
  case False
  then have s: "start < i_end (head m ! p)" by simp
  show ?thesis
  proof (cases "cost \<ge> i_cost (head m ! p)")
    case True
    obtain m1 q where i: "InsertInterval m (Some p) cost position start (i_start (head m ! p)) =
        (m1, q)"
      by (cases "InsertInterval m (Some p) cost position start (i_start (head m ! p))")
    have "(b, m', ptr', start') =
        (if i_end (head m ! p) \<ge> end
          then (False, m1, ptr_after_insert q (Some p), i_end (head m ! p))
          else (True, m1, ptr_after_insert q (next_of (head m) p), i_end (head m ! p)))"
      using assms unfolding push_step_worse[OF s True] i prod.case by (rule sym)
    then have "m' = m1" "start' = i_end (head m ! p)" "b = (i_end (head m ! p) < end)"
      "ptr' = (if b then ptr_after_insert q (next_of (head m) p)
               else ptr_after_insert q (Some p))"
      by (simp_all split: if_splits)
    then show ?thesis using worse[OF s True, of q] i by blast
  next
    case False
    then have c: "cost < i_cost (head m ! p)" by simp
    show ?thesis
    proof (cases "start \<le> i_start (head m ! p)")
      case True
      show ?thesis
      proof (cases "i_end (head m ! p) \<le> end")
        case e: True
        have "(b, m', ptr', start') =
          (True, PopInterval m (Some p), ptr_after_pop p (next_of (head m) p), start)"
          using assms unfolding push_step_pop[OF s c True e] by (rule sym)
        then show ?thesis using pop[OF s c True e] by blast
      next
        case False
        then have e: "end < i_end (head m ! p)" by simp
        have "(b, m', ptr', start') =
          (False, m\<lparr>head := (head m)[p := (head m ! p)\<lparr>i_start := end\<rparr>]\<rparr>, Some p, start)"
          using assms unfolding push_step_left[OF s c True e] by (rule sym)
        then show ?thesis using left[OF s c True e] by blast
      qed
    next
      case False
      then have l: "i_start (head m ! p) < start" by simp
      show ?thesis
      proof (cases "end < i_end (head m ! p)")
        case True
        obtain m1 q where i: "InsertInterval
            (m\<lparr>head := (head m)[p := (head m ! p)\<lparr>i_end := start\<rparr>]\<rparr>) (Some p)
            (i_cost (head m ! p)) (i_index (head m ! p)) end (i_end (head m ! p)) = (m1, q)"
          by (cases "InsertInterval
            (m\<lparr>head := (head m)[p := (head m ! p)\<lparr>i_end := start\<rparr>]\<rparr>) (Some p)
            (i_cost (head m ! p)) (i_index (head m ! p)) end (i_end (head m ! p))")
        have "(b, m', ptr', start') =
           (False, m1,
           (case ptr_after_insert q (Some p) of None \<Rightarrow> None
            | Some p' \<Rightarrow> next_of (head m1) p'),
           start)"
          using assms unfolding push_step_split[OF s c l True] i prod.case by (rule sym)
        then have "\<not> b" "m' = m1" "start' = start"
          "ptr' = (case ptr_after_insert q (Some p) of None \<Rightarrow> None
               | Some p' \<Rightarrow> next_of (head m') p')"
          by auto
        then show ?thesis using split[OF s c l True, of q] i by blast
      next
        case False
        then have e: "i_end (head m ! p) \<le> end" by simp
        have "(b, m', ptr', start') =
          (True, m\<lparr>head := (head m)[p := (head m ! p)\<lparr>i_end := start\<rparr>]\<rparr>,
            next_of (head m) p, start)"
          using assms unfolding push_step_right[OF s c l e] by (rule sym)
        then show ?thesis using right[OF s c l e] by blast
      qed
    qed
  qed
qed

lemma effective_cost_nth:
  "p < length (head m) \<Longrightarrow>
   effective_cost m j =
     (if i_start (head m ! p) \<le> j \<and> j < i_end (head m ! p)
      then min (i_cost (head m ! p))
             (eff_list (take p (head m) @ drop (Suc p) (head m)) j (costs m ! nat j))
      else eff_list (take p (head m) @ drop (Suc p) (head m)) j (costs m ! nat j))"
  unfolding effective_cost_def by (subst eff_list_nth[of p]) simp_all

lemma effective_cost_update:
  "p < length (head m) \<Longrightarrow>
   effective_cost (m\<lparr>head := (head m)[p := I]\<rparr>) j =
     (if i_start I \<le> j \<and> j < i_end I
      then min (i_cost I)
             (eff_list (take p (head m) @ drop (Suc p) (head m)) j (costs m ! nat j))
      else eff_list (take p (head m) @ drop (Suc p) (head m)) j (costs m ! nat j))"
  unfolding effective_cost_def by (simp add: eff_list_update)

lemma effective_cost_pop:
  "effective_cost (PopInterval m (Some p)) j =
     eff_list (take p (head m) @ drop (Suc p) (head m)) j (costs m ! nat j)"
  unfolding effective_cost_def by (simp add: head_PopInterval)

lemma push_step_basic:
  assumes "push_step m p start end cost position = (b, m', ptr', start')"
    and "p < length (head m)"
  shows "length (costs m') = length (costs m)" "length (dist_array m') = length (dist_array m)"
    "valid_ptr (head m') ptr'" "start \<le> start'"
proof -
  have "length (costs m') = length (costs m) \<and> length (dist_array m') = length (dist_array m) \<and>
    valid_ptr (head m') ptr' \<and> start \<le> start'"
    using assms(1)
  proof (cases rule: push_step_cases)
    case skip
    then show ?thesis by simp
  next
    case (worse q)
    have v1: "valid_ptr (head m) (Some p)" "valid_ptr (head m) (next_of (head m) p)"
      using assms(2) by simp_all
    from InsertInterval_result(1,2)[OF worse(3)] InsertInterval_result(4)[OF worse(3) v1(1)]
      InsertInterval_result(4)[OF worse(3) v1(2)] worse
    show ?thesis by simp
  next
    case pop
    then show ?thesis using valid_next_pop[OF assms(2)] by (simp add: head_PopInterval)
  next
    case left
    then show ?thesis using assms(2) by simp
  next
    case (split q)
    have "valid_ptr (head m') ptr'"
      unfolding split(7) by (cases "ptr_after_insert q (Some p)") simp_all
    with InsertInterval_result(1,2)[OF split(6)] split show ?thesis by simp
  next
    case right
    have "valid_ptr ((head m)[p := (head m ! p)\<lparr>i_end := start\<rparr>]) (next_of (head m) p)"
      by (simp add: next_of_def)
    with right show ?thesis by simp
  qed
  then show "length (costs m') = length (costs m)"
    "length (dist_array m') = length (dist_array m)"
    "valid_ptr (head m') ptr'" "start \<le> start'"
    by simp_all
qed

lemma push_step_eff:
  assumes st: "push_step m p start end cost position = (b, m', ptr', start')"
    and p: "p < length (head m)" and s0: "0 \<le> start" and e0: "0 \<le> end"
    and j: "0 \<le> j" "nat j < length (costs m)"
    and lc: "i_start (head m ! p) < end"
  shows "seg_min cost start' end j (effective_cost m' j) =
         seg_min cost start end j (effective_cost m j)"
proof -
  define R where "R = eff_list (take p (head m) @ drop (Suc p) (head m)) j (costs m ! nat j)"
  define a where "a = i_start (head m ! p)"
  define z where "z = i_end (head m ! p)"
  define ic where "ic = i_cost (head m ! p)"
  have E0: "effective_cost m j = (if a \<le> j \<and> j < z then min ic R else R)"
    unfolding R_def a_def z_def ic_def by (rule effective_cost_nth[OF p])
  have lc': "a < end" using lc by (simp add: a_def)
  from st show ?thesis
  proof (cases rule: push_step_cases)
    case skip
    then show ?thesis by simp
  next
    case (worse q)
    have "effective_cost m' j = seg_min cost start a j (effective_cost m j)"
      unfolding a_def by (rule InsertInterval_result(3)[OF worse(3) s0 j])
    moreover have "start < z" "ic \<le> cost" "start' = z" using worse by (simp_all add: z_def ic_def)
    ultimately show ?thesis using lc' unfolding E0 seg_min_def by (auto simp: min_def)
  next
    case pop
    have "effective_cost m' j = R" unfolding pop R_def by (rule effective_cost_pop)
    moreover have "start \<le> a" "z \<le> end" "cost < ic" "start' = start" "start < z"
      using pop by (simp_all add: a_def z_def ic_def)
    ultimately show ?thesis using lc' unfolding E0 seg_min_def by (auto simp: min_def)
  next
    case left
    have "effective_cost m' j = (if end \<le> j \<and> j < z then min ic R else R)"
      unfolding left R_def z_def ic_def
      using effective_cost_update[OF p, of "(head m ! p)\<lparr>i_start := end\<rparr>" j] by simp
    moreover have "start \<le> a" "end < z" "cost < ic" "start' = start" "start < z"
      using left by (simp_all add: a_def z_def ic_def)
    ultimately show ?thesis using lc' unfolding E0 seg_min_def by (auto simp: min_def)
  next
    case (split q)
    let ?m1 = "m\<lparr>head := (head m)[p := (head m ! p)\<lparr>i_end := start\<rparr>]\<rparr>"
    have e1: "effective_cost ?m1 j = (if a \<le> j \<and> j < start then min ic R else R)"
      unfolding R_def a_def ic_def
      using effective_cost_update[OF p, of "(head m ! p)\<lparr>i_end := start\<rparr>" j] by simp
    have j1: "nat j < length (costs ?m1)" using j by simp
    have "effective_cost m' j = seg_min ic end z j (effective_cost ?m1 j)"
      unfolding ic_def z_def by (rule InsertInterval_result(3)[OF split(6) e0 j(1) j1])
    moreover have "a < start" "end < z" "cost < ic" "start' = start" "start < z"
      using split by (simp_all add: a_def z_def ic_def)
    ultimately show ?thesis using lc' unfolding E0 e1 seg_min_def by (auto simp: min_def)
  next
    case right
    have "effective_cost m' j = (if a \<le> j \<and> j < start then min ic R else R)"
      unfolding right R_def a_def ic_def
      using effective_cost_update[OF p, of "(head m ! p)\<lparr>i_end := start\<rparr>" j] by simp
    moreover have "a < start" "z \<le> end" "cost < ic" "start' = start" "start < z"
      using right by (simp_all add: a_def z_def ic_def)
    ultimately show ?thesis using lc' unfolding E0 seg_min_def by (auto simp: min_def)
  qed
qed

lemma push_loop_unfold:
  "push_loop m None start end cost position = (m, None, start)"
  "push_loop m (Some p) start end cost position =
     (if i_start (head m ! p) < end
      then (case push_step m p start end cost position of
              (True, m', ptr', start') \<Rightarrow> push_loop m' ptr' start' end cost position
            | (False, r) \<Rightarrow> r)
      else (m, Some p, start))"
  by (subst push_loop.simps, simp)+

text \<open>
  An invariant \<open>Inv\<close> of the inner loop of \<^verbatim>\<open>PushInterval\<close>, with the condition \<open>Q\<close> it
  gives when the loop is left: at the end of the list, at a node that starts at or after
  \<open>end\<close>, or by a \<^verbatim>\<open>break\<close>.
\<close>

lemma push_loop_rule:
  assumes "Inv m ptr start" "valid_ptr (head m) ptr"
    and exit_null: "\<And>m start. Inv m None start \<Longrightarrow> Q m None start"
    and exit_cond: "\<And>m p start. Inv m (Some p) start \<Longrightarrow> p < length (head m) \<Longrightarrow>
        \<not> i_start (head m ! p) < end \<Longrightarrow> Q m (Some p) start"
    and cont: "\<And>m p start m' ptr' start'. Inv m (Some p) start \<Longrightarrow> p < length (head m) \<Longrightarrow>
        i_start (head m ! p) < end \<Longrightarrow>
        push_step m p start end cost position = (True, m', ptr', start') \<Longrightarrow>
        Inv m' ptr' start'"
    and brk: "\<And>m p start m' ptr' start'. Inv m (Some p) start \<Longrightarrow> p < length (head m) \<Longrightarrow>
        i_start (head m ! p) < end \<Longrightarrow>
        push_step m p start end cost position = (False, m', ptr', start') \<Longrightarrow>
        Q m' ptr' start'"
  shows "case push_loop m ptr start end cost position of (m', ptr', start') \<Rightarrow> Q m' ptr' start'"
  using assms
proof (induction m ptr start "end" cost position rule: push_loop.induct)
  case (1 m ptr start "end" cost position)
  note exit_null = "1.prems"(3) and exit_cond = "1.prems"(4) and cont = "1.prems"(5)
    and brk = "1.prems"(6)
  show ?case
  proof (cases ptr)
    case None
    then show ?thesis using exit_null "1.prems"(1) by (simp add: push_loop_unfold)
  next
    case (Some p)
    then have p: "p < length (head m)" using "1.prems"(2) by simp
    show ?thesis
    proof (cases "i_start (head m ! p) < end")
      case False
      then show ?thesis using exit_cond "1.prems"(1) p Some by (simp add: push_loop_unfold)
    next
      case True
      obtain b m' ptr' start' where st: "push_step m p start end cost position = (b, m', ptr', start')"
        by (cases "push_step m p start end cost position") auto
      show ?thesis
      proof (cases b)
        case False
        have "Q m' ptr' start'" using brk[OF _ p True] "1.prems"(1) st Some False by simp
        then show ?thesis using Some True st False by (simp add: push_loop_unfold)
      next
        case b: True
        have i: "Inv m' ptr' start'" using cont[OF _ p True] "1.prems"(1) st Some b by simp
        have v: "valid_ptr (head m') ptr'" using push_step_basic(3)[OF st p] .
        have "case push_loop m' ptr' start' end cost position of
                (m', ptr', start') \<Rightarrow> Q m' ptr' start'"
          by (rule "1.IH"[OF Some True st[symmetric] eqTrueI[OF b] refl refl i v exit_null
                exit_cond cont brk])
        then show ?thesis using Some True st b by (simp add: push_loop_unfold)
      qed
    qed
  qed
qed

lemma push_loop_eff:
  assumes "valid_ptr (head m) ptr" "0 \<le> start" "0 \<le> end"
  shows "case push_loop m ptr start end cost position of
           (m', ptr', start') \<Rightarrow>
             length (costs m') = length (costs m) \<and>
             length (dist_array m') = length (dist_array m) \<and>
             0 \<le> start' \<and> valid_ptr (head m') ptr' \<and>
             (\<forall>j. 0 \<le> j \<and> nat j < length (costs m) \<longrightarrow>
                seg_min cost start' end j (effective_cost m' j) =
                seg_min cost start end j (effective_cost m j))"
proof -
  let ?Q = "\<lambda>m' ptr' start'.
             length (costs m') = length (costs m) \<and>
             length (dist_array m') = length (dist_array m) \<and>
             0 \<le> start' \<and> valid_ptr (head m') ptr' \<and>
             (\<forall>j. 0 \<le> j \<and> nat j < length (costs m) \<longrightarrow>
                seg_min cost start' end j (effective_cost m' j) =
                seg_min cost start end j (effective_cost m j))"
  have step: "?Q m2 ptr2 start2"
    if "?Q m1 (Some p) start1" "p < length (head m1)" "i_start (head m1 ! p) < end"
      "push_step m1 p start1 end cost position = (b, m2, ptr2, start2)"
    for m1 p start1 b m2 ptr2 start2
  proof -
    from that(1) have l: "length (costs m1) = length (costs m)" and s1: "0 \<le> start1" by simp_all
    have "seg_min cost start2 end j (effective_cost m2 j) =
          seg_min cost start1 end j (effective_cost m1 j)"
      if "0 \<le> j" "nat j < length (costs m)" for j
      using push_step_eff[OF \<open>push_step m1 p start1 end cost position = (b, m2, ptr2, start2)\<close>
          \<open>p < length (head m1)\<close> s1 assms(3) that(1) _ \<open>i_start (head m1 ! p) < end\<close>]
        that(2) l by simp
    then show ?thesis
      using that(1) push_step_basic[OF that(4,2)] by simp
  qed
  show ?thesis
  proof (rule push_loop_rule[where Inv = ?Q and Q = ?Q])
    show "?Q m ptr start" using assms by simp
    show "valid_ptr (head m) ptr" by (rule assms(1))
  next
    fix m1 p start1 m2 ptr2 start2
    assume "?Q m1 (Some p) start1" "p < length (head m1)" "i_start (head m1 ! p) < end"
      "push_step m1 p start1 end cost position = (True, m2, ptr2, start2)"
    then show "?Q m2 ptr2 start2" by (rule step)
  next
    fix m1 p start1 m2 ptr2 start2
    assume "?Q m1 (Some p) start1" "p < length (head m1)" "i_start (head m1 ! p) < end"
      "push_step m1 p start1 end cost position = (False, m2, ptr2, start2)"
    then show "?Q m2 ptr2 start2" by (rule step)
  qed
qed

text \<open>
  The relaxation that the segments of the cache intervals \<open>cis\<close> make at pixel \<open>j\<close>.
\<close>

fun seg_eff :: "int \<Rightarrow> int \<Rightarrow> int \<Rightarrow> CostCacheInterval list \<Rightarrow> int \<Rightarrow> int \<Rightarrow> int" where
  "seg_eff dc position len [] j x = x"
| "seg_eff dc position len (ci # cis) j x =
     (if c_start ci < len
      then seg_eff dc position len cis j
             (seg_min (dc + c_cost ci) (position + c_start ci)
                (position + (if c_end ci > len then len else c_end ci)) j x)
      else x)"

lemma push_segments_eff:
  assumes "valid_ptr (head m) ptr" "0 \<le> position" "0 \<le> len"
    "\<forall>ci \<in> set cis. 0 \<le> c_start ci \<and> 0 \<le> c_end ci"
  shows "length (costs (push_segments m ptr dc position len cis)) = length (costs m) \<and>
         length (dist_array (push_segments m ptr dc position len cis)) = length (dist_array m) \<and>
         (\<forall>j. 0 \<le> j \<and> nat j < length (costs m) \<longrightarrow>
            effective_cost (push_segments m ptr dc position len cis) j =
              seg_eff dc position len cis j (effective_cost m j))"
  using assms
proof (induction cis arbitrary: m ptr)
  case Nil
  then show ?case by simp
next
  case (Cons ci cis)
  show ?case
  proof (cases "c_start ci < len")
    case False
    then show ?thesis by simp
  next
    case True
    define s where "s = position + c_start ci"
    define e where "e = position + (if c_end ci > len then len else c_end ci)"
    define c where "c = dc + c_cost ci"
    have s0: "0 \<le> s" and e0: "0 \<le> e" using Cons.prems by (simp_all add: s_def e_def)
    obtain m1 ptr1 start1 where l: "push_loop m ptr s e c position = (m1, ptr1, start1)"
      by (cases "push_loop m ptr s e c position") auto
    obtain m2 q where i: "InsertInterval m1 ptr1 c position start1 e = (m2, q)"
      by (cases "InsertInterval m1 ptr1 c position start1 e") auto
    from push_loop_eff[OF Cons.prems(1) s0 e0, of c position] l
    have l1: "length (costs m1) = length (costs m)" "length (dist_array m1) = length (dist_array m)"
      "0 \<le> start1" "valid_ptr (head m1) ptr1"
      and e1: "\<And>j. 0 \<le> j \<Longrightarrow> nat j < length (costs m) \<Longrightarrow>
                seg_min c start1 e j (effective_cost m1 j) = seg_min c s e j (effective_cost m j)"
      by simp_all
    have l2: "length (costs m2) = length (costs m)" "length (dist_array m2) = length (dist_array m)"
      using InsertInterval_result(1,2)[OF i] l1 by simp_all
    have v2: "valid_ptr (head m2) (ptr_after_insert q ptr1)"
      by (rule InsertInterval_result(4)[OF i l1(4)])
    have e2: "effective_cost m2 j = seg_min c s e j (effective_cost m j)"
      if "0 \<le> j" "nat j < length (costs m)" for j
      using InsertInterval_result(3)[OF i l1(3) that(1)] that(2) l1(1) e1[OF that] by simp
    have eq: "push_segments m ptr dc position len (ci # cis) =
          push_segments m2 (ptr_after_insert q ptr1) dc position len cis"
      using True l i by (simp add: s_def e_def c_def Let_def)
    have ih: "length (costs (push_segments m2 (ptr_after_insert q ptr1) dc position len cis)) =
         length (costs m2) \<and>
         length (dist_array (push_segments m2 (ptr_after_insert q ptr1) dc position len cis)) =
         length (dist_array m2) \<and>
         (\<forall>j. 0 \<le> j \<and> nat j < length (costs m2) \<longrightarrow>
            effective_cost (push_segments m2 (ptr_after_insert q ptr1) dc position len cis) j =
              seg_eff dc position len cis j (effective_cost m2 j))"
      using Cons.IH[OF v2 Cons.prems(2,3)] Cons.prems(4) by simp
    show ?thesis
      unfolding eq using ih l2 e2 True by (simp add: s_def e_def c_def)
  qed
qed

subsection \<open>PushInterval relaxes every pixel of the run\<close>

text \<open>
  \<open>cache_tiles cc cis s e\<close>: the cache intervals \<open>cis\<close> follow one another from \<open>s\<close> to
  \<open>e\<close> without gap, none is empty, and each carries the value that \<open>cc\<close> (the array
  \<^verbatim>\<open>cost_cache\<close>) has on it.
\<close>

fun cache_tiles :: "int list \<Rightarrow> CostCacheInterval list \<Rightarrow> int \<Rightarrow> int \<Rightarrow> bool" where
  "cache_tiles cc [] s e = (s = e)"
| "cache_tiles cc (ci # cis) s e =
     (c_start ci = s \<and> s < c_end ci \<and> c_end ci \<le> e \<and>
      (\<forall>k. s \<le> k \<and> k < c_end ci \<longrightarrow> cc ! nat k = c_cost ci) \<and>
      cache_tiles cc cis (c_end ci) e)"

lemma cache_tiles_nonneg:
  "cache_tiles cc cis s e \<Longrightarrow> 0 \<le> s \<Longrightarrow> \<forall>ci \<in> set cis. 0 \<le> c_start ci \<and> 0 \<le> c_end ci"
  by (induction cis arbitrary: s) fastforce+

lemma seg_min_le: "seg_min c s e j x \<le> x"
  by (simp add: seg_min_def)

lemma seg_eff_le: "seg_eff dc position len cis j x \<le> x"
proof (induction cis arbitrary: x)
  case Nil
  show ?case by simp
next
  case (Cons ci cis)
  show ?case
    using Cons[of "seg_min (dc + c_cost ci) (position + c_start ci)
                (position + (if c_end ci > len then len else c_end ci)) j x"]
      seg_min_le[of "dc + c_cost ci" "position + c_start ci"
                "position + (if c_end ci > len then len else c_end ci)" j x]
    by (simp del: seg_eff.simps add: seg_eff.simps(2)[of dc position len ci cis j x])
qed

lemma seg_eff_tiles:
  "cache_tiles cc cis s e \<Longrightarrow> s \<le> k \<Longrightarrow> k < e \<Longrightarrow> k < len \<Longrightarrow>
   seg_eff dc position len cis (position + k) x \<le> dc + cc ! nat k"
proof (induction cis arbitrary: s x)
  case Nil
  then show ?case by simp
next
  case (Cons ci cis)
  from Cons.prems have t: "c_start ci = s" "s < c_end ci"
    "\<forall>k. s \<le> k \<and> k < c_end ci \<longrightarrow> cc ! nat k = c_cost ci"
    "cache_tiles cc cis (c_end ci) e"
    by simp_all
  have lt: "c_start ci < len" using t(1) Cons.prems(2,4) by simp
  let ?x1 = "seg_min (dc + c_cost ci) (position + c_start ci)
                (position + (if c_end ci > len then len else c_end ci)) (position + k) x"
  have eq: "seg_eff dc position len (ci # cis) (position + k) x =
            seg_eff dc position len cis (position + k) ?x1"
    using lt by simp
  show ?case
  proof (cases "k < c_end ci")
    case True
    then have "cc ! nat k = c_cost ci" using t(3) Cons.prems(2) by simp
    moreover have "?x1 \<le> dc + c_cost ci"
      using True t(1) Cons.prems(2,4) by (simp add: seg_min_def)
    ultimately show ?thesis
      unfolding eq using seg_eff_le[of dc position len cis "position + k" ?x1] by simp
  next
    case False
    then have "c_end ci \<le> k" by simp
    from Cons.IH[OF t(4) this Cons.prems(3,4)] show ?thesis unfolding eq .
  qed
qed

lemma effective_cost_push_small:
  assumes "0 \<le> position" "0 \<le> j" "nat j < length (costs m)"
  shows "effective_cost (push_small m dc position len position) j =
     (if position \<le> j \<and> j < position + len
      then min (dc + cost_cache m ! nat (j - position)) (effective_cost m j)
      else effective_cost m j)"
proof -
  have h: "head (push_small m dc position len position) = head m"
    by (rule only_costs_fields(1)[OF push_small_only_costs])
  let ?cand = "dc + cost_cache m ! nat (j - position)"
  have c: "costs (push_small m dc position len position) ! nat j =
      (if position \<le> j \<and> j < position + len then min ?cand (costs m ! nat j)
       else costs m ! nat j)"
    unfolding push_small_costs[OF assms(1,3)] using assms(2) by (simp add: min.commute)
  show ?thesis
    unfolding effective_cost_def h c by (simp add: eff_list_min)
qed

text \<open>
  Claim C1. Let the cache intervals of the manager tile \<open>[0, K)\<close> with the values of
  \<^verbatim>\<open>cost_cache\<close> (as \<^verbatim>\<open>CostManagerInit\<close> leaves them, \<open>K\<close> being the smaller of the pixel
  count and \<^verbatim>\<open>MAX_LENGTH\<close>). After \<^verbatim>\<open>PushInterval(manager, distance_cost, position, len)\<close>
  with \<open>0 < len \<le> K\<close>, the effective best-known cost of every pixel \<open>position + k\<close>,
  \<open>0 \<le> k < len\<close>, is at most \<open>distance_cost + cost_cache[k]\<close>, and the effective
  best-known cost of no pixel of the image has increased.
\<close>

theorem PushInterval_relaxes:
  assumes "0 < len" "len \<le> K" "0 \<le> position"
    and "cache_tiles (cost_cache m) (cache_intervals m) 0 K"
  shows "(\<forall>k. 0 \<le> k \<and> k < len \<and> nat (position + k) < length (costs m) \<longrightarrow>
            effective_cost (PushInterval m distance_cost position len) (position + k)
              \<le> distance_cost + cost_cache m ! nat k) \<and>
         (\<forall>j. 0 \<le> j \<and> nat j < length (costs m) \<longrightarrow>
            effective_cost (PushInterval m distance_cost position len) j
              \<le> effective_cost m j)"
proof (cases "len < kSkipDistance")
  case True
  then have eq: "PushInterval m distance_cost position len =
      push_small m distance_cost position len position"
    by (simp add: PushInterval_def)
  show ?thesis
    unfolding eq using assms(3) by (simp add: effective_cost_push_small)
next
  case False
  then have eq: "PushInterval m distance_cost position len =
      push_segments m (head_ptr (head m)) distance_cost position len (cache_intervals m)"
    by (simp add: PushInterval_def)
  have nn: "\<forall>ci \<in> set (cache_intervals m). 0 \<le> c_start ci \<and> 0 \<le> c_end ci"
    using cache_tiles_nonneg[OF assms(4)] by simp
  have len0: "0 \<le> len" using assms(1) by simp
  from push_segments_eff[OF valid_head_ptr assms(3) len0 nn, where dc = distance_cost]
  have e: "\<And>j. 0 \<le> j \<Longrightarrow> nat j < length (costs m) \<Longrightarrow>
     effective_cost (PushInterval m distance_cost position len) j =
       seg_eff distance_cost position len (cache_intervals m) j (effective_cost m j)"
    unfolding eq by simp
  show ?thesis
  proof (intro conjI allI impI)
    fix k assume k: "0 \<le> k \<and> k < len \<and> nat (position + k) < length (costs m)"
    then have "0 \<le> position + k" using assms(3) by simp
    from e[OF this] k
      seg_eff_tiles[OF assms(4), where k = k and len = len and dc = distance_cost
        and position = position and x = "effective_cost m (position + k)"] assms(2)
    show "effective_cost (PushInterval m distance_cost position len) (position + k)
              \<le> distance_cost + cost_cache m ! nat k"
      by simp
  next
    fix j assume "0 \<le> j \<and> nat j < length (costs m)"
    then show "effective_cost (PushInterval m distance_cost position len) j \<le> effective_cost m j"
      using e[of j] seg_eff_le by simp
  qed
qed

lemma cache_tiles_code [code]:
  "cache_tiles cc [] s e = (s = e)"
  "cache_tiles cc (ci # cis) s e =
     (c_start ci = s \<and> s < c_end ci \<and> c_end ci \<le> e \<and>
      list_all (\<lambda>k. cc ! nat k = c_cost ci) [s..c_end ci - 1] \<and>
      cache_tiles cc cis (c_end ci) e)"
  by (auto simp: list_all_iff)

lemma example_cache_tiles:
  "cache_tiles (cost_cache example_manager) (cache_intervals example_manager) 0 20"
  by code_simp

text \<open>
  A run of \<open>12\<close> pixels from pixel \<open>3\<close> pushed on the first example manager (the long
  path): pixel \<open>10\<close> is the eighth of the run.
\<close>

theorem PushInterval_relaxes_witness:
  "effective_cost (PushInterval example_manager 5 3 12) 10 \<le> 5 + cost_cache example_manager ! 7 \<and>
   effective_cost (PushInterval example_manager 5 3 12) 30 \<le> effective_cost example_manager 30"
proof -
  have h: "(0::int) < 12" "(12::int) \<le> 20" "(0::int) \<le> 3" by simp_all
  have l: "length (costs example_manager) = 40" by (simp add: example_manager_def)
  from PushInterval_relaxes[OF h example_cache_tiles, of 5]
  have a: "\<And>k. 0 \<le> k \<and> k < 12 \<and> nat (3 + k) < length (costs example_manager) \<Longrightarrow>
            effective_cost (PushInterval example_manager 5 3 12) (3 + k)
              \<le> 5 + cost_cache example_manager ! nat k"
    and b: "\<And>j. 0 \<le> j \<and> nat j < length (costs example_manager) \<Longrightarrow>
            effective_cost (PushInterval example_manager 5 3 12) j
              \<le> effective_cost example_manager j"
    by blast+
  from a[of 7] b[of 30] l show ?thesis by simp
qed

subsection \<open>The invariant of the list of intervals\<close>

text \<open>
  \<^verbatim>\<open>count\<close> is the number of nodes of the list, and it is at most
  \<open>COST_CACHE_INTERVAL_SIZE_MAX\<close>.
\<close>

definition count_ok :: "CostManager \<Rightarrow> bool" where
  "count_ok m =
     (count m = int (length (head m)) \<and> count m \<le> COST_CACHE_INTERVAL_SIZE_MAX)"

text \<open>
  The invariant as the specification words it: the list is sorted by \<open>start\<close>, an
  interval ends before its successor starts, no interval is empty, and the number of
  stored intervals, which \<^verbatim>\<open>count\<close> holds, is at most
  \<open>COST_CACHE_INTERVAL_SIZE_MAX\<close>.
\<close>

definition active_inv :: "CostManager \<Rightarrow> bool" where
  "active_inv m =
     (sorted (map i_start (head m)) \<and>
      list_all (\<lambda>k. i_end (head m ! k) \<le> i_start (head m ! Suc k)) [0..<length (head m) - 1] \<and>
      list_all (\<lambda>I. i_start I < i_end I) (head m) \<and>
      count m = int (length (head m)) \<and>
      int (length (head m)) \<le> COST_CACHE_INTERVAL_SIZE_MAX)"

text \<open>The same for a list, with the order stated for every pair of nodes.\<close>

definition list_inv :: "CostInterval list \<Rightarrow> bool" where
  "list_inv xs =
     (sorted_wrt (\<lambda>a b. i_end a \<le> i_start b) xs \<and> (\<forall>I \<in> set xs. i_start I < i_end I))"

lemma list_inv_Nil [simp]: "list_inv []"
  by (simp add: list_inv_def)

lemma list_inv_Cons:
  "list_inv (I # xs) =
     (i_start I < i_end I \<and> (\<forall>J \<in> set xs. i_end I \<le> i_start J) \<and> list_inv xs)"
  by (auto simp: list_inv_def)

lemma list_inv_append:
  "list_inv (xs @ ys) =
     (list_inv xs \<and> list_inv ys \<and> (\<forall>I \<in> set xs. \<forall>J \<in> set ys. i_end I \<le> i_start J))"
  by (auto simp: list_inv_def sorted_wrt_append)

lemma list_inv_adjacent:
  assumes "\<forall>I \<in> set xs. i_start I < i_end I"
  shows "sorted_wrt (\<lambda>a b. i_end a \<le> i_start b) xs =
         (\<forall>k. Suc k < length xs \<longrightarrow> i_end (xs ! k) \<le> i_start (xs ! Suc k))"
  using assms
proof (induction xs)
  case Nil
  show ?case by simp
next
  case (Cons I xs)
  show ?case
  proof (cases xs)
    case Nil
    then show ?thesis by simp
  next
    case (Cons J ys)
    have ih: "sorted_wrt (\<lambda>a b. i_end a \<le> i_start b) xs =
         (\<forall>k. Suc k < length xs \<longrightarrow> i_end (xs ! k) \<le> i_start (xs ! Suc k))"
      using Cons.IH Cons.prems by simp
    have adj: "(\<forall>k. Suc k < length (I # xs) \<longrightarrow> i_end ((I # xs) ! k) \<le> i_start ((I # xs) ! Suc k)) =
          (i_end I \<le> i_start J \<and>
           (\<forall>k. Suc k < length xs \<longrightarrow> i_end (xs ! k) \<le> i_start (xs ! Suc k)))"
      (is "?L = ?R")
    proof
      assume l: ?L
      have "i_end I \<le> i_start J" using l[rule_format, of 0] Cons by simp
      moreover have "i_end (xs ! k) \<le> i_start (xs ! Suc k)" if "Suc k < length xs" for k
        using l[rule_format, of "Suc k"] that by simp
      ultimately show ?R by simp
    next
      assume r: ?R
      show ?L
      proof (intro allI impI)
        fix k assume "Suc k < length (I # xs)"
        then show "i_end ((I # xs) ! k) \<le> i_start ((I # xs) ! Suc k)"
          using r Cons by (cases k) simp_all
      qed
    qed
    have "sorted_wrt (\<lambda>a b. i_end a \<le> i_start b) (I # xs) =
          (i_end I \<le> i_start J \<and> sorted_wrt (\<lambda>a b. i_end a \<le> i_start b) xs)"
    proof -
      have "\<forall>K \<in> set xs. i_end I \<le> i_start K"
        if a: "i_end I \<le> i_start J" and s: "sorted_wrt (\<lambda>a b. i_end a \<le> i_start b) xs"
      proof
        fix K assume K: "K \<in> set xs"
        show "i_end I \<le> i_start K"
        proof (cases "K = J")
          case True
          then show ?thesis using a by simp
        next
          case False
          then have "K \<in> set ys" using K Cons by simp
          then have "i_end J \<le> i_start K" using s Cons by simp
          moreover have "i_start J < i_end J" using Cons.prems Cons by simp
          ultimately show ?thesis using a by simp
        qed
      qed
      then show ?thesis using Cons by auto
    qed
    then show ?thesis unfolding adj ih .
  qed
qed

lemma list_inv_sorted_start: "list_inv xs \<Longrightarrow> sorted (map i_start xs)"
proof (induction xs)
  case Nil
  show ?case by simp
next
  case (Cons I xs)
  then have "\<forall>J \<in> set xs. i_start I \<le> i_start J" by (fastforce simp: list_inv_Cons)
  then show ?case using Cons by (simp add: list_inv_Cons)
qed

lemma active_inv_iff:
  "active_inv m = (list_inv (head m) \<and> count_ok m)"
proof -
  have a: "list_all (\<lambda>k. i_end (head m ! k) \<le> i_start (head m ! Suc k)) [0..<length (head m) - 1] =
        (\<forall>k. Suc k < length (head m) \<longrightarrow> i_end (head m ! k) \<le> i_start (head m ! Suc k))"
    by (auto simp: list_all_iff)
  have b: "(count m = int (length (head m)) \<and>
             int (length (head m)) \<le> COST_CACHE_INTERVAL_SIZE_MAX) = count_ok m"
    by (auto simp: count_ok_def)
  have "active_inv m =
        (sorted (map i_start (head m)) \<and>
         (\<forall>k. Suc k < length (head m) \<longrightarrow> i_end (head m ! k) \<le> i_start (head m ! Suc k)) \<and>
         list_all (\<lambda>I. i_start I < i_end I) (head m) \<and> count_ok m)"
    unfolding active_inv_def a b[symmetric] by simp
  then show ?thesis
    using list_inv_adjacent[of "head m"] list_inv_sorted_start[of "head m"]
    by (auto simp: list_inv_def list_all_iff)
qed

subsection \<open>Where PositionOrphanInterval links a node\<close>

lemma walk_back_None: "walk_back xs s p = None \<Longrightarrow> k \<le> p \<Longrightarrow> s < i_start (xs ! k)"
proof (induction p)
  case 0
  then show ?case by (simp split: if_splits)
next
  case (Suc p)
  then show ?case by (cases "k = Suc p") (auto split: if_splits)
qed

lemma walk_back_Some:
  "walk_back xs s p = Some r \<Longrightarrow>
   r \<le> p \<and> i_start (xs ! r) \<le> s \<and> (\<forall>k. r < k \<and> k \<le> p \<longrightarrow> s < i_start (xs ! k))"
proof (induction p)
  case 0
  then show ?case by (simp split: if_splits)
next
  case (Suc p)
  show ?case
  proof (cases "s < i_start (xs ! Suc p)")
    case True
    then have "walk_back xs s p = Some r" using Suc.prems by simp
    from Suc.IH[OF this] True show ?thesis by (auto simp: le_Suc_eq)
  next
    case False
    then show ?thesis using Suc.prems by auto
  qed
qed

lemma walk_forward_unfold:
  "walk_forward xs s p =
     (if Suc p < length xs \<and> i_start (xs ! Suc p) < s then walk_forward xs s (Suc p) else p)"
  by (subst walk_forward.simps) simp

lemma walk_forward_spec:
  "r < length xs \<Longrightarrow>
   r \<le> walk_forward xs s r \<and> walk_forward xs s r < length xs \<and>
   (\<forall>k. r < k \<and> k \<le> walk_forward xs s r \<longrightarrow> i_start (xs ! k) < s) \<and>
   (Suc (walk_forward xs s r) < length xs \<longrightarrow> s \<le> i_start (xs ! Suc (walk_forward xs s r)))"
proof (induction xs s r rule: walk_forward.induct)
  case (1 xs s p)
  show ?case
  proof (cases "Suc p < length xs \<and> i_start (xs ! Suc p) < s")
    case True
    then have eq: "walk_forward xs s p = walk_forward xs s (Suc p)"
      by (subst walk_forward_unfold) simp
    from "1.IH"[OF True] True
    have ih: "Suc p \<le> walk_forward xs s (Suc p)" "walk_forward xs s (Suc p) < length xs"
      "\<forall>k. Suc p < k \<and> k \<le> walk_forward xs s (Suc p) \<longrightarrow> i_start (xs ! k) < s"
      "Suc (walk_forward xs s (Suc p)) < length xs \<longrightarrow>
         s \<le> i_start (xs ! Suc (walk_forward xs s (Suc p)))"
      by simp_all
    have "i_start (xs ! k) < s" if "p < k \<and> k \<le> walk_forward xs s (Suc p)" for k
      using that ih(3) True by (cases "k = Suc p") auto
    then show ?thesis unfolding eq using ih by auto
  next
    case False
    then have eq: "walk_forward xs s p = p" by (subst walk_forward_unfold) auto
    show ?thesis unfolding eq using False "1.prems" by auto
  qed
qed

text \<open>
  In a list sorted by \<open>start\<close>, from any hint, the node is linked after the nodes that
  start no later than it and before the nodes that start no earlier.
\<close>

lemma orphan_position_sorted:
  assumes "sorted (map i_start xs)" "valid_ptr xs hint"
  shows "orphan_position xs s hint \<le> length xs \<and>
         (\<forall>k < orphan_position xs s hint. i_start (xs ! k) \<le> s) \<and>
         (\<forall>k. orphan_position xs s hint \<le> k \<and> k < length xs \<longrightarrow> s \<le> i_start (xs ! k))"
proof (cases "xs = []")
  case True
  then show ?thesis using assms(2)
    by (cases hint) (simp_all add: orphan_position_def head_ptr_def)
next
  case False
  define p where "p = (case hint of None \<Rightarrow> 0 | Some p \<Rightarrow> p)"
  have p: "p < length xs" using False assms(2) by (cases hint) (simp_all add: p_def)
  have mono: "i_start (xs ! a) \<le> i_start (xs ! b)" if "a \<le> b" "b < length xs" for a b
    using assms(1) that by (simp add: sorted_iff_nth_mono)
  have q: "orphan_position xs s hint =
      (case walk_back xs s p of None \<Rightarrow> 0 | Some r \<Rightarrow> Suc (walk_forward xs s r))"
    using False by (cases hint; cases "walk_back xs s p")
      (simp_all add: orphan_position_def head_ptr_def p_def)
  show ?thesis
  proof (cases "walk_back xs s p")
    case None
    have "s \<le> i_start (xs ! k)" if "k < length xs" for k
    proof (cases "k \<le> p")
      case True
      from walk_back_None[OF None True] show ?thesis by simp
    next
      case False
      then have "i_start (xs ! p) \<le> i_start (xs ! k)" using mono[of p k] that by simp
      moreover have "s < i_start (xs ! p)" using walk_back_None[OF None, of p] by simp
      ultimately show ?thesis by simp
    qed
    then show ?thesis unfolding q None by simp
  next
    case (Some r)
    from walk_back_Some[OF Some] have r: "r \<le> p" "i_start (xs ! r) \<le> s" by simp_all
    then have rl: "r < length xs" using p by simp
    define r' where "r' = walk_forward xs s r"
    from walk_forward_spec[OF rl, of s]
    have w: "r \<le> r'" "r' < length xs" "\<forall>k. r < k \<and> k \<le> r' \<longrightarrow> i_start (xs ! k) < s"
      "Suc r' < length xs \<longrightarrow> s \<le> i_start (xs ! Suc r')"
      by (simp_all add: r'_def)
    have a: "i_start (xs ! k) \<le> s" if "k < Suc r'" for k
    proof (cases "k \<le> r")
      case True
      then show ?thesis using mono[of k r] rl r(2) by simp
    next
      case False
      then show ?thesis using w(3) that by (simp add: less_Suc_eq_le less_imp_le)
    qed
    have b: "s \<le> i_start (xs ! k)" if "Suc r' \<le> k" "k < length xs" for k
    proof -
      have "Suc r' < length xs" using that by simp
      then have "s \<le> i_start (xs ! Suc r')" using w(4) by simp
      then show ?thesis using mono[OF that] by simp
    qed
    show ?thesis unfolding q Some using a b w(2) by (simp add: r'_def)
  qed
qed

text \<open>
  When the nodes before place \<open>c\<close> end at or before \<open>s\<close> and the nodes from \<open>c\<close> on
  start after \<open>s\<close>, the node is linked at \<open>c\<close>.
\<close>

lemma orphan_position_at:
  assumes "list_inv xs" "valid_ptr xs hint" "c \<le> length xs"
    and "\<forall>I \<in> set (take c xs). i_end I \<le> s"
    and "\<forall>I \<in> set (drop c xs). s < i_start I"
  shows "orphan_position xs s hint = c"
proof -
  define q where "q = orphan_position xs s hint"
  from orphan_position_sorted[OF list_inv_sorted_start[OF assms(1)] assms(2), of s]
  have q: "q \<le> length xs" "\<forall>k < q. i_start (xs ! k) \<le> s"
    "\<forall>k. q \<le> k \<and> k < length xs \<longrightarrow> s \<le> i_start (xs ! k)"
    by (simp_all add: q_def)
  have "\<not> q < c"
  proof
    assume l: "q < c"
    then have ql: "q < length xs" using assms(3) by simp
    have "xs ! q \<in> set (take c xs)" using l ql by (auto simp: in_set_conv_nth intro!: exI[of _ q])
    then have "i_end (xs ! q) \<le> s" using assms(4) by simp
    moreover have "i_start (xs ! q) < i_end (xs ! q)"
      using assms(1) ql by (simp add: list_inv_def)
    moreover have "s \<le> i_start (xs ! q)" using q(3) ql by simp
    ultimately show False by simp
  qed
  moreover have "\<not> c < q"
  proof
    assume l: "c < q"
    then have cl: "c < length xs" using q(1) by simp
    have "xs ! c \<in> set (drop c xs)" using cl
      by (auto simp: in_set_conv_nth intro!: exI[of _ 0])
    then have "s < i_start (xs ! c)" using assms(5) by simp
    moreover have "i_start (xs ! c) \<le> s" using q(2) l by simp
    ultimately show False by simp
  qed
  ultimately show ?thesis by (simp add: q_def)
qed

lemma list_inv_insert_at:
  assumes "list_inv xs" "i_start I < i_end I"
    and "\<forall>J \<in> set (take c xs). i_end J \<le> i_start I"
    and "\<forall>J \<in> set (drop c xs). i_end I \<le> i_start J"
  shows "list_inv (take c xs @ I # drop c xs)"
proof -
  have "list_inv (take c xs @ drop c xs)" using assms(1) by simp
  then have p: "list_inv (take c xs)" "list_inv (drop c xs)"
    "\<forall>I \<in> set (take c xs). \<forall>J \<in> set (drop c xs). i_end I \<le> i_start J"
    unfolding list_inv_append by blast+
  show ?thesis
    unfolding list_inv_append list_inv_Cons
    using p assms(2-4) by fastforce
qed

text \<open>
  Linking an interval that meets no interval of a well-formed list, from any hint, gives
  a well-formed list.
\<close>

lemma list_inv_orphan:
  assumes "list_inv xs" "valid_ptr xs hint" "i_start I < i_end I"
    and "\<forall>J \<in> set xs. i_end J \<le> i_start I \<or> i_end I \<le> i_start J"
  shows "list_inv (take (orphan_position xs (i_start I) hint) xs @ I #
                   drop (orphan_position xs (i_start I) hint) xs)"
proof -
  define q where "q = orphan_position xs (i_start I) hint"
  from orphan_position_sorted[OF list_inv_sorted_start[OF assms(1)] assms(2), of "i_start I"]
  have q: "q \<le> length xs" "\<forall>k < q. i_start (xs ! k) \<le> i_start I"
    "\<forall>k. q \<le> k \<and> k < length xs \<longrightarrow> i_start I \<le> i_start (xs ! k)"
    by (simp_all add: q_def)
  have ne: "\<forall>J \<in> set xs. i_start J < i_end J" using assms(1) by (simp add: list_inv_def)
  have a: "\<forall>J \<in> set (take q xs). i_end J \<le> i_start I"
  proof
    fix J assume J: "J \<in> set (take q xs)"
    then obtain k where k: "k < q" "k < length xs" "J = xs ! k"
      by (auto simp: in_set_conv_nth)
    then have "i_start J \<le> i_start I" using q(2) by simp
    moreover have "J \<in> set xs" using J by (rule in_set_takeD)
    ultimately show "i_end J \<le> i_start I" using assms(3,4) ne by fastforce
  qed
  have b: "\<forall>J \<in> set (drop q xs). i_end I \<le> i_start J"
  proof
    fix J assume J: "J \<in> set (drop q xs)"
    then obtain i where "i < length xs - q" "J = xs ! (q + i)"
      by (auto simp: in_set_conv_nth)
    then have "q + i < length xs \<and> J = xs ! (q + i)" by simp
    then obtain k where k: "q + k < length xs" "J = xs ! (q + k)" by blast
    then have "i_start I \<le> i_start J" using q(3) by simp
    moreover have "J \<in> set xs" using J by (rule in_set_dropD)
    ultimately show "i_end I \<le> i_start J" using assms(3,4) ne by fastforce
  qed
  show ?thesis using list_inv_insert_at[OF assms(1,3) a b] by (simp add: q_def)
qed

subsection \<open>The list invariant through InsertInterval and the inner loop\<close>

text \<open>The place of a pointer in the list, the end of the list for \<^verbatim>\<open>NULL\<close>.\<close>

definition cpos :: "CostInterval list \<Rightarrow> nat option \<Rightarrow> nat" where
  "cpos xs ptr = (case ptr of None \<Rightarrow> length xs | Some p \<Rightarrow> p)"

lemma cpos_simps [simp]: "cpos xs None = length xs" "cpos xs (Some p) = p"
  by (simp_all add: cpos_def)

lemma cpos_next_of: "p < length xs \<Longrightarrow> length ys = length xs \<Longrightarrow> cpos ys (next_of xs p) = Suc p"
  by (auto simp: next_of_def)

lemma cpos_after_pop:
  "p < length xs \<Longrightarrow> length ys = length xs - 1 \<Longrightarrow>
   cpos ys (ptr_after_pop p (next_of xs p)) = p"
  by (auto simp: next_of_def ptr_after_pop_def)

lemma cpos_after_insert:
  "valid_ptr xs ptr \<Longrightarrow> q \<le> cpos xs ptr \<Longrightarrow> length ys = Suc (length xs) \<Longrightarrow>
   cpos ys (ptr_after_insert (Some q) ptr) = Suc (cpos xs ptr)"
  by (cases ptr) (auto simp: ptr_after_insert_def)

lemma InsertInterval_head_cases:
  assumes "InsertInterval m hint cost position s e = (m', q)"
  obtains (none) "q = None" "head m' = head m" "count m' = count m"
  | (stored) "s < e" "count m < COST_CACHE_INTERVAL_SIZE_MAX"
      "q = Some (orphan_position (head m) s hint)"
      "head m' = take (orphan_position (head m) s hint) (head m) @
         \<lparr>i_cost = cost, i_start = s, i_end = e, i_index = position, i_addr = new_addr m\<rparr> #
         drop (orphan_position (head m) s hint) (head m)"
      "count m' = count m + 1"
proof (cases "will_store m s e")
  case True
  from InsertInterval_store[OF True, of hint cost position] assms
  have "q = Some (orphan_position (head m) s hint)"
      "head m' = take (orphan_position (head m) s hint) (head m) @
         \<lparr>i_cost = cost, i_start = s, i_end = e, i_index = position, i_addr = new_addr m\<rparr> #
         drop (orphan_position (head m) s hint) (head m)"
      "count m' = count m + 1"
    by auto
  moreover have "s < e" "count m < COST_CACHE_INTERVAL_SIZE_MAX"
    using True by (simp_all add: will_store_def)
  ultimately show ?thesis using stored by blast
next
  case False
  show ?thesis
  proof (cases "s < e")
    case True
    from InsertInterval_serialize[OF True False, of hint cost position] assms
    have "q = None" "head m' = head m" "count m' = count m"
      using only_costs_fields(1,2)[OF only_costs_UpdateCostPerInterval, of m s e position cost]
      by auto
    then show ?thesis using none by blast
  next
    case False
    from InsertInterval_empty[OF False, of m hint cost position] assms
    show ?thesis using none by simp
  qed
qed

text \<open>
  \<^verbatim>\<open>InsertInterval\<close> keeps the invariant when the interval it is given meets no
  interval of the list.
\<close>

lemma InsertInterval_active_inv:
  assumes "active_inv m" "valid_ptr (head m) hint"
    and "\<forall>J \<in> set (head m). i_end J \<le> s \<or> e \<le> i_start J"
  shows "active_inv (fst (InsertInterval m hint cost position s e))"
proof -
  obtain m' q where i: "InsertInterval m hint cost position s e = (m', q)"
    by (cases "InsertInterval m hint cost position s e") auto
  have l: "list_inv (head m)" and c: "count_ok m"
    using assms(1) by (simp_all add: active_inv_iff)
  from i have "active_inv m'"
  proof (cases rule: InsertInterval_head_cases)
    case none
    then show ?thesis using l c by (simp add: active_inv_iff count_ok_def)
  next
    case stored
    let ?I = "\<lparr>i_cost = cost, i_start = s, i_end = e, i_index = position, i_addr = new_addr m\<rparr>"
    have "list_inv (take (orphan_position (head m) (i_start ?I) hint) (head m) @ ?I #
                   drop (orphan_position (head m) (i_start ?I) hint) (head m))"
      by (rule list_inv_orphan[OF l assms(2)]) (use stored(1) assms(3) in simp_all)
    moreover have "orphan_position (head m) s hint \<le> length (head m)"
      using orphan_position_sorted[OF list_inv_sorted_start[OF l] assms(2), of s] by simp
    ultimately show ?thesis using stored c by (simp add: active_inv_iff count_ok_def)
  qed
  then show ?thesis using i by simp
qed

text \<open>
  The invariant of the inner loop of \<^verbatim>\<open>PushInterval\<close> for the segment that ends at \<open>e\<close>:
  the list is well formed, and the nodes before \<^verbatim>\<open>interval\<close> end at or before
  \<^verbatim>\<open>start\<close>. \<open>walk_done\<close> is what holds when the loop is left.
\<close>

definition walk_inv :: "int \<Rightarrow> CostManager \<Rightarrow> nat option \<Rightarrow> int \<Rightarrow> bool" where
  "walk_inv e m ptr start =
     (list_inv (head m) \<and> valid_ptr (head m) ptr \<and>
      (\<forall>I \<in> set (take (cpos (head m) ptr) (head m)). i_end I \<le> start) \<and>
      start < e \<and> count_ok m)"

definition walk_done :: "int \<Rightarrow> CostManager \<Rightarrow> nat option \<Rightarrow> int \<Rightarrow> bool" where
  "walk_done e m ptr start =
     (list_inv (head m) \<and> valid_ptr (head m) ptr \<and>
      count_ok m \<and>
      (\<forall>I \<in> set (take (cpos (head m) ptr) (head m)). i_end I \<le> e) \<and>
      (start < e \<longrightarrow>
         (\<forall>I \<in> set (take (cpos (head m) ptr) (head m)). i_end I \<le> start) \<and>
         (\<forall>I \<in> set (drop (cpos (head m) ptr) (head m)). e \<le> i_start I)))"

lemma push_step_inv:
  assumes inv: "walk_inv e m (Some p) start" and lc: "i_start (head m ! p) < e"
    and st: "push_step m p start e cost position = (b, m', ptr', start')"
  shows "if b then walk_inv e m' ptr' start' else walk_done e m' ptr' start'"
proof -
  from inv have li: "list_inv (head m)" and p: "p < length (head m)"
    and bef: "\<forall>I \<in> set (take p (head m)). i_end I \<le> start" and se: "start < e"
    and cnt: "count_ok m"
    by (simp_all add: walk_inv_def)
  define A where "A = take p (head m)"
  define I where "I = head m ! p"
  define B where "B = drop (Suc p) (head m)"
  have xs: "head m = A @ I # B" and lA: "length A = p"
    using p by (simp_all add: A_def I_def B_def id_take_nth_drop[symmetric])
  have nth: "head m ! p = I" by (simp add: I_def)
  from li have liA: "list_inv A" and liB: "list_inv B" and neI: "i_start I < i_end I"
    and AI: "\<forall>a \<in> set A. i_end a \<le> i_start I"
    and AB: "\<forall>a \<in> set A. \<forall>b \<in> set B. i_end a \<le> i_start b"
    and IB: "\<forall>b \<in> set B. i_end I \<le> i_start b"
    unfolding xs list_inv_append list_inv_Cons by auto
  have Ast: "\<forall>a \<in> set A. i_end a \<le> start" using bef by (simp add: A_def)
  have lc': "i_start I < e" using lc by (simp add: nth)
  have upd: "(head m)[p := J] = A @ J # B" for J
    unfolding xs using lA by (metis list_update_length)
  from st show ?thesis
  proof (cases rule: push_step_cases)
    case skip
    have c: "cpos (head m) (next_of (head m) p) = Suc p" by (rule cpos_next_of[OF p refl])
    have t: "take (Suc p) (head m) = A @ [I]" unfolding xs using lA by simp
    have "walk_inv e m (next_of (head m) p) start"
      unfolding walk_inv_def c t using li se cnt Ast skip(1) by (simp add: nth)
    then show ?thesis using skip by simp
  next
    case (worse q)
    have s': "start' = i_end I" using worse(4) by (simp add: nth)
    have sI: "start < i_end I" using worse(1) by (simp add: nth)
    from worse(3) show ?thesis
    proof (cases rule: InsertInterval_head_cases)
      case none
      have cnt': "count_ok m'" using none(2,3) cnt by (simp add: count_ok_def)
      show ?thesis
      proof (cases b)
        case True
        have c: "cpos (head m') ptr' = Suc p"
          using worse(6) True none by (simp add: ptr_after_insert_def cpos_next_of[OF p])
        have t: "take (Suc p) (head m') = A @ [I]" unfolding none xs using lA by simp
        have v: "valid_ptr (head m') ptr'"
          using worse(6) True none by (simp add: ptr_after_insert_def)
        have "walk_inv e m' ptr' start'"
          unfolding walk_inv_def c t
          using li cnt' Ast sI none v worse(5) True s' by (auto simp: nth)
        then show ?thesis using True by simp
      next
        case False
        have c: "ptr' = Some p" using worse(6) False none by (simp add: ptr_after_insert_def)
        have t: "take p (head m') = A" unfolding none xs using lA by simp
        have "walk_done e m' ptr' start'"
          unfolding walk_done_def c using li cnt' Ast se none p worse(5) False s' t
          by (auto simp: nth)
        then show ?thesis using False by simp
      qed
    next
      case stored
      let ?N = "\<lparr>i_cost = cost, i_start = start, i_end = i_start I, i_index = position,
                  i_addr = new_addr m\<rparr>"
      have sN: "start < i_start I" using stored(1) by (simp add: nth)
      have tp: "take p (head m) = A" "drop p (head m) = I # B" unfolding xs using lA by simp_all
      have q: "orphan_position (head m) start (Some p) = p"
      proof (rule orphan_position_at[OF li])
        show "valid_ptr (head m) (Some p)" using p by simp
        show "p \<le> length (head m)" using p by simp
        show "\<forall>J \<in> set (take p (head m)). i_end J \<le> start" by (rule bef)
        show "\<forall>J \<in> set (drop p (head m)). start < i_start J"
          unfolding tp using sN IB neI by fastforce
      qed
      have h': "head m' = A @ ?N # I # B"
        using stored(4) unfolding q tp by (simp add: nth)
      have li': "list_inv (A @ ?N # I # B)"
        unfolding list_inv_append list_inv_Cons
        using liA liB neI AI AB IB Ast sN by fastforce
      have cnt': "count_ok m'" using stored(2,5) cnt h' xs by (simp add: count_ok_def)
      have qq: "q = Some p" using stored(3) q by simp
      show ?thesis
      proof (cases b)
        case True
        have pt: "ptr' = ptr_after_insert (Some p) (next_of (head m) p)"
          using worse(6) True qq by simp
        have c: "cpos (head m') ptr' = Suc (Suc p)"
          unfolding pt
          using cpos_after_insert[of "head m" "next_of (head m) p" p "head m'"]
            cpos_next_of[OF p refl] h' xs
          by simp
        have v: "valid_ptr (head m') ptr'"
          unfolding pt h' using xs lA
          by (auto simp: ptr_after_insert_def next_of_def)
        have t: "take (Suc (Suc p)) (head m') = A @ [?N, I]" unfolding h' using lA by simp
        have "walk_inv e m' ptr' start'"
          unfolding walk_inv_def c t
          using li' cnt' Ast sI neI v worse(5) True s' h' by (auto simp: nth)
        then show ?thesis using True by simp
      next
        case False
        have pt: "ptr' = Some (Suc p)"
          using worse(6) False qq by (simp add: ptr_after_insert_def)
        have t: "take (Suc p) (head m') = A @ [?N]" unfolding h' using lA by simp
        have "walk_done e m' ptr' start'"
          unfolding walk_done_def pt cpos_simps t
          using li' cnt' Ast se lc' worse(5) False s' h' lA by (auto simp: nth)
        then show ?thesis using False by simp
      qed
    qed
  next
    case pop
    have h': "head m' = A @ B" unfolding pop by (simp add: head_PopInterval xs lA)
    have c: "cpos (head m') ptr' = p"
      unfolding pop(7) by (rule cpos_after_pop[OF p]) (simp add: h' xs)
    have v: "valid_ptr (head m') ptr'"
      unfolding pop(6,7) using valid_next_pop[OF p] by (simp add: head_PopInterval)
    have "count m' = count m - 1" unfolding pop(6) by (simp add: PopInterval_def Let_def)
    then have cnt': "count_ok m'" using cnt h' xs by (simp add: count_ok_def)
    have li': "list_inv (A @ B)" unfolding list_inv_append using liA liB AB by simp
    have "walk_inv e m' ptr' start'"
      unfolding walk_inv_def c using li' v cnt' Ast se pop(8) h' lA by simp
    then show ?thesis using pop(5) by simp
  next
    case left
    let ?J = "I\<lparr>i_start := e\<rparr>"
    have h': "head m' = A @ ?J # B" unfolding left(6) by (simp add: upd nth)
    have eI: "e < i_end I" using left(4) by (simp add: nth)
    have li': "list_inv (A @ ?J # B)"
      unfolding list_inv_append list_inv_Cons
      using liA liB AB IB Ast se eI by fastforce
    have "count m' = count m" unfolding left(6) by simp
    then have cnt': "count_ok m'" using cnt h' xs by (simp add: count_ok_def)
    have "walk_done e m' ptr' start'"
      unfolding walk_done_def left(7) cpos_simps
      using li' cnt' Ast se eI IB h' lA left(8) by fastforce
    then show ?thesis using left(5) by simp
  next
    case (split q)
    let ?J = "I\<lparr>i_end := start\<rparr>"
    let ?m1 = "m\<lparr>head := (head m)[p := (head m ! p)\<lparr>i_end := start\<rparr>]\<rparr>"
    have h1: "head ?m1 = A @ ?J # B" by (simp add: upd nth)
    have Is: "i_start I < start" using split(3) by (simp add: nth)
    have eI: "e < i_end I" using split(4) by (simp add: nth)
    have li1: "list_inv (A @ ?J # B)"
      unfolding list_inv_append list_inv_Cons
      using liA liB AB IB AI neI Is eI se by fastforce
    have s': "start' = start" by (rule split(8))
    from split(6) show ?thesis
    proof (cases rule: InsertInterval_head_cases)
      case none
      have h': "head m' = A @ ?J # B" using none(2) h1 by simp
      have pt: "ptr' = next_of (head m') p"
        using split(7) none(1) by (simp add: ptr_after_insert_def)
      have pl: "p < length (head m')" unfolding h' using lA by simp
      have c: "cpos (head m') ptr' = Suc p" unfolding pt by (rule cpos_next_of[OF pl refl])
      have t: "take (Suc p) (head m') = A @ [?J]" "drop (Suc p) (head m') = B"
        unfolding h' using lA by simp_all
      have cnt': "count_ok m'" using none(3) cnt h' xs by (simp add: count_ok_def)
      have "walk_done e m' ptr' start'"
        unfolding walk_done_def c t
        using li1 cnt' Ast se eI IB h' pt s' by fastforce
      then show ?thesis using split(5) by simp
    next
      case stored
      let ?N = "\<lparr>i_cost = i_cost I, i_start = e, i_end = i_end I, i_index = i_index I,
                  i_addr = new_addr ?m1\<rparr>"
      have t1: "take (Suc p) (A @ ?J # B) = A @ [?J]" "drop (Suc p) (A @ ?J # B) = B"
        using lA by simp_all
      have q: "orphan_position (head ?m1) e (Some p) = Suc p"
      proof (rule orphan_position_at)
        show "list_inv (head ?m1)" unfolding h1 by (rule li1)
        show "valid_ptr (head ?m1) (Some p)" unfolding h1 using lA by simp
        show "Suc p \<le> length (head ?m1)" unfolding h1 using lA by simp
        show "\<forall>J \<in> set (take (Suc p) (head ?m1)). i_end J \<le> e"
          unfolding h1 t1 using Ast se by fastforce
        show "\<forall>J \<in> set (drop (Suc p) (head ?m1)). e < i_start J"
          unfolding h1 t1 using IB eI by fastforce
      qed
      have h': "head m' = A @ ?J # ?N # B"
        using stored(4)[unfolded q] unfolding h1 t1 by (simp add: nth)
      have li': "list_inv (A @ ?J # ?N # B)"
        unfolding list_inv_append list_inv_Cons
        using liA liB AB IB AI neI Is eI se Ast by fastforce
      have cnt': "count_ok m'" using stored(2,5) cnt h' xs by (simp add: count_ok_def)
      have pt: "ptr' = Some (Suc p)"
        using split(7) stored(3) unfolding q h'
        by (simp add: ptr_after_insert_def next_of_def lA)
      have t: "take (Suc p) (head m') = A @ [?J]" "drop (Suc p) (head m') = ?N # B"
        unfolding h' using lA by simp_all
      have "walk_done e m' ptr' start'"
        unfolding walk_done_def pt cpos_simps t
        using li' cnt' Ast se eI IB h' s' lA by fastforce
      then show ?thesis using split(5) by simp
    qed
  next
    case right
    let ?J = "I\<lparr>i_end := start\<rparr>"
    have h': "head m' = A @ ?J # B" unfolding right(6) by (simp add: upd nth)
    have Is: "i_start I < start" using right(3) by (simp add: nth)
    have sI: "start < i_end I" using right(1) by (simp add: nth)
    have li': "list_inv (A @ ?J # B)"
      unfolding list_inv_append list_inv_Cons
      using liA liB AB IB AI Is sI by fastforce
    have "count m' = count m" unfolding right(6) by simp
    then have cnt': "count_ok m'" using cnt h' xs by (simp add: count_ok_def)
    have ll: "length (head m') = length (head m)" unfolding h' xs by simp
    have c: "cpos (head m') ptr' = Suc p" unfolding right(7) by (rule cpos_next_of[OF p ll])
    have v: "valid_ptr (head m') ptr'"
      unfolding right(7) using ll by (simp add: next_of_def)
    have t: "take (Suc p) (head m') = A @ [?J]" unfolding h' using lA by simp
    have "walk_inv e m' ptr' start'"
      unfolding walk_inv_def c t
      using li' cnt' Ast se v right(8) h' by fastforce
    then show ?thesis using right(5) by simp
  qed
qed

lemma push_loop_inv:
  assumes "walk_inv e m ptr start"
  shows "case push_loop m ptr start e cost position of
           (m', ptr', start') \<Rightarrow> walk_done e m' ptr' start'"
proof (rule push_loop_rule[where Inv = "walk_inv e" and Q = "walk_done e"])
  show "walk_inv e m ptr start" by (rule assms)
  show "valid_ptr (head m) ptr" using assms by (simp add: walk_inv_def)
next
  fix m1 start1
  assume "walk_inv e m1 None start1"
  then show "walk_done e m1 None start1"
    by (fastforce simp: walk_inv_def walk_done_def)
next
  fix m1 p start1
  assume inv: "walk_inv e m1 (Some p) start1" and p: "p < length (head m1)"
    and lc: "\<not> i_start (head m1 ! p) < e"
  have xs: "head m1 = take p (head m1) @ head m1 ! p # drop (Suc p) (head m1)"
    using p by (simp add: id_take_nth_drop[symmetric])
  have li: "list_inv (take p (head m1) @ head m1 ! p # drop (Suc p) (head m1))"
    using inv xs by (simp add: walk_inv_def)
  have d: "drop p (head m1) = head m1 ! p # drop (Suc p) (head m1)"
    using p by (simp add: Cons_nth_drop_Suc)
  have "\<forall>I \<in> set (drop p (head m1)). e \<le> i_start I"
    unfolding d using li lc unfolding list_inv_append list_inv_Cons by fastforce
  then show "walk_done e m1 (Some p) start1"
    using inv by (fastforce simp: walk_inv_def walk_done_def)
next
  fix m1 p start1 m2 ptr2 start2
  assume "walk_inv e m1 (Some p) start1" "p < length (head m1)" "i_start (head m1 ! p) < e"
    "push_step m1 p start1 e cost position = (True, m2, ptr2, start2)"
  from push_step_inv[OF this(1,3,4)] show "walk_inv e m2 ptr2 start2" by simp
next
  fix m1 p start1 m2 ptr2 start2
  assume "walk_inv e m1 (Some p) start1" "p < length (head m1)" "i_start (head m1 ! p) < e"
    "push_step m1 p start1 e cost position = (False, m2, ptr2, start2)"
  from push_step_inv[OF this(1,3,4)] show "walk_done e m2 ptr2 start2" by simp
qed

text \<open>
  Between two segments: the list is well formed and the nodes before \<^verbatim>\<open>interval\<close> end
  at or before \<open>s\<close>, where the next segment starts.
\<close>

definition seg_inv :: "int \<Rightarrow> CostManager \<Rightarrow> nat option \<Rightarrow> bool" where
  "seg_inv s m ptr =
     (list_inv (head m) \<and> valid_ptr (head m) ptr \<and>
      count_ok m \<and>
      (\<forall>I \<in> set (take (cpos (head m) ptr) (head m)). i_end I \<le> s))"

lemma segment_insert_inv:
  assumes wd: "walk_done e m1 ptr1 start1"
    and i: "InsertInterval m1 ptr1 cost position start1 e = (m2, q)"
  shows "seg_inv e m2 (ptr_after_insert q ptr1)"
proof -
  from wd have li: "list_inv (head m1)" and v: "valid_ptr (head m1) ptr1"
    and cnt: "count_ok m1"
    and be: "\<forall>I \<in> set (take (cpos (head m1) ptr1) (head m1)). i_end I \<le> e"
    by (simp_all add: walk_done_def)
  define c where "c = cpos (head m1) ptr1"
  have cl: "c \<le> length (head m1)" using v by (cases ptr1) (simp_all add: c_def)
  from i show ?thesis
  proof (cases rule: InsertInterval_head_cases)
    case none
    then show ?thesis
      using li v cnt be by (simp add: seg_inv_def ptr_after_insert_def count_ok_def)
  next
    case stored
    from wd stored(1)
    have bs: "\<forall>I \<in> set (take c (head m1)). i_end I \<le> start1"
      and af: "\<forall>I \<in> set (drop c (head m1)). e \<le> i_start I"
      by (simp_all add: walk_done_def c_def)
    let ?N = "\<lparr>i_cost = cost, i_start = start1, i_end = e, i_index = position,
                i_addr = new_addr m1\<rparr>"
    have q: "orphan_position (head m1) start1 ptr1 = c"
      by (rule orphan_position_at[OF li v cl bs]) (use af stored(1) in fastforce)
    have h2: "head m2 = take c (head m1) @ ?N # drop c (head m1)"
      using stored(4) unfolding q .
    have li2: "list_inv (head m2)"
      unfolding h2 by (rule list_inv_insert_at[OF li]) (use stored(1) bs af in simp_all)
    have l2: "length (head m2) = Suc (length (head m1))" unfolding h2 using cl by simp
    have c2: "cpos (head m2) (ptr_after_insert q ptr1) = Suc c"
      unfolding stored(3) q c_def
      by (rule cpos_after_insert[OF v _ l2]) simp
    have v2: "valid_ptr (head m2) (ptr_after_insert q ptr1)"
      using v l2 unfolding stored(3)
      by (cases ptr1) (auto simp: ptr_after_insert_def)
    have t2: "take (Suc c) (head m2) = take c (head m1) @ [?N]"
      unfolding h2 using cl by simp
    have "\<forall>I \<in> set (take (Suc c) (head m2)). i_end I \<le> e"
      unfolding t2 using bs stored(1) by fastforce
    moreover have "count_ok m2" using stored(2,5) cnt l2 by (simp add: count_ok_def)
    ultimately show ?thesis
      unfolding seg_inv_def c2 using li2 v2 by simp
  qed
qed

lemma push_segments_inv:
  assumes "seg_inv (position + s) m ptr" "cache_tiles cc cis s K"
  shows "list_inv (head (push_segments m ptr dc position len cis)) \<and>
         count_ok (push_segments m ptr dc position len cis)"
  using assms
proof (induction cis arbitrary: m ptr s)
  case Nil
  then show ?case by (simp add: seg_inv_def)
next
  case (Cons ci cis)
  from Cons.prems(2) have t: "c_start ci = s" "s < c_end ci" "cache_tiles cc cis (c_end ci) K"
    by simp_all
  show ?case
  proof (cases "c_start ci < len")
    case False
    then show ?thesis using Cons.prems(1) by (simp add: seg_inv_def)
  next
    case True
    define st where "st = position + c_start ci"
    define e where "e = position + (if c_end ci > len then len else c_end ci)"
    define c where "c = dc + c_cost ci"
    have se: "st < e" using True t(1,2) by (simp add: st_def e_def)
    have wi: "walk_inv e m ptr st"
      using Cons.prems(1) se t(1) by (simp add: walk_inv_def seg_inv_def st_def)
    obtain m1 ptr1 start1 where l: "push_loop m ptr st e c position = (m1, ptr1, start1)"
      by (cases "push_loop m ptr st e c position") auto
    obtain m2 q where i: "InsertInterval m1 ptr1 c position start1 e = (m2, q)"
      by (cases "InsertInterval m1 ptr1 c position start1 e") auto
    have wd: "walk_done e m1 ptr1 start1"
      using push_loop_inv[OF wi, of c position] l by simp
    have si: "seg_inv e m2 (ptr_after_insert q ptr1)" by (rule segment_insert_inv[OF wd i])
    have eq: "push_segments m ptr dc position len (ci # cis) =
          push_segments m2 (ptr_after_insert q ptr1) dc position len cis"
      using True l i by (simp add: st_def e_def c_def Let_def)
    show ?thesis
    proof (cases "c_end ci > len")
      case False
      then have "e = position + c_end ci" by (simp add: e_def)
      with si have "seg_inv (position + c_end ci) m2 (ptr_after_insert q ptr1)" by simp
      from Cons.IH[OF this t(3)] show ?thesis unfolding eq .
    next
      case big: True
      have "push_segments m2 (ptr_after_insert q ptr1) dc position len cis = m2"
      proof (cases cis)
        case Nil
        then show ?thesis by simp
      next
        case (Cons ci' cis')
        then have "c_start ci' = c_end ci" using t(3) by simp
        then show ?thesis using Cons big by simp
      qed
      then show ?thesis unfolding eq using si by (simp add: seg_inv_def)
    qed
  qed
qed

lemma PushInterval_active_inv:
  assumes "active_inv m" "cache_tiles (cost_cache m) (cache_intervals m) 0 K"
  shows "active_inv (PushInterval m dc position len)"
proof (cases "len < kSkipDistance")
  case True
  then have "PushInterval m dc position len = push_small m dc position len position"
    by (simp add: PushInterval_def)
  then show ?thesis
    using assms(1) only_costs_fields(1,2)[OF push_small_only_costs, of m dc position len position]
    by (simp add: active_inv_iff count_ok_def)
next
  case False
  then have eq: "PushInterval m dc position len =
      push_segments m (head_ptr (head m)) dc position len (cache_intervals m)"
    by (simp add: PushInterval_def)
  have "seg_inv (position + 0) m (head_ptr (head m))"
    using assms(1) by (auto simp: seg_inv_def active_inv_iff head_ptr_def)
  from push_segments_inv[OF this assms(2)] show ?thesis
    unfolding eq by (simp add: active_inv_iff)
qed

lemma PopInterval_active_inv:
  assumes "active_inv m" "p < length (head m)"
  shows "active_inv (PopInterval m (Some p))"
proof -
  have "list_inv (take p (head m) @ drop p (head m))" using assms(1) by (simp add: active_inv_iff)
  then have a: "list_inv (take p (head m))"
    and b: "list_inv (drop p (head m))"
    and c: "\<forall>I \<in> set (take p (head m)). \<forall>J \<in> set (drop p (head m)). i_end I \<le> i_start J"
    unfolding list_inv_append by blast+
  have d: "drop p (head m) = head m ! p # drop (Suc p) (head m)"
    using assms(2) by (simp add: Cons_nth_drop_Suc)
  have "list_inv (take p (head m) @ drop (Suc p) (head m))"
    unfolding list_inv_append using a b c unfolding d list_inv_Cons by simp
  moreover have "count (PopInterval m (Some p)) = count m - 1"
    by (simp add: PopInterval_def Let_def)
  ultimately show ?thesis
    using assms by (simp add: active_inv_iff head_PopInterval count_ok_def)
qed

lemma UpdateCostAtIndex_active_inv:
  assumes "active_inv m"
  shows "active_inv (UpdateCostAtIndex m i c)"
proof (rule UpdateCostAtIndex_rule[where P = active_inv])
  show "active_inv m" by (rule assms)
next
  fix m' p assume "active_inv m'" "p < length (head m')"
  then show "active_inv (PopInterval m' (Some p))" by (rule PopInterval_active_inv)
next
  fix m' p assume "active_inv m'"
  then show "active_inv (UpdateCost m' i (i_index (head m' ! p)) (i_cost (head m' ! p)))"
    using only_costs_fields(1,2)[OF only_costs_UpdateCost,
        of m' i "i_index (head m' ! p)" "i_cost (head m' ! p)"]
    by (simp add: active_inv_iff count_ok_def)
qed

subsection \<open>Claim C3\<close>

text \<open>
  The second example manager with an allocator that succeeds twice.
\<close>

definition example_manager_alloc :: CostManager where
  "example_manager_alloc = example_manager_pushed\<lparr>malloc_results := [Some 11, Some 12]\<rparr>"

text \<open>
  Claim C3. The invariant of the active list is: the list is sorted by \<open>start\<close>, each
  interval ends at or before the start of its successor, no stored interval is empty,
  and the number of stored intervals, which is what \<^verbatim>\<open>count\<close> holds, is at most
  \<open>COST_CACHE_INTERVAL_SIZE_MAX = 500\<close>. From a manager that satisfies it, each of the
  four operations gives a manager that satisfies it: \<^verbatim>\<open>PopInterval\<close> of a node of the
  list or of \<^verbatim>\<open>NULL\<close>; \<^verbatim>\<open>UpdateCostAtIndex\<close> at any index, cleaning or not;
  \<^verbatim>\<open>PushInterval\<close> with any cost, position and length, the cache intervals being
  consecutive from \<open>0\<close> (as \<^verbatim>\<open>CostManagerInit\<close> builds them); and \<^verbatim>\<open>InsertInterval\<close>,
  with any hint that is \<^verbatim>\<open>NULL\<close> or a node of the list, for an interval \<open>[s, e)\<close> that
  meets no stored interval. The last condition is the one under which \<^verbatim>\<open>PushInterval\<close>,
  the only caller of the static function \<^verbatim>\<open>InsertInterval\<close>, calls it: the walk over the
  list has trimmed or removed every stored interval that meets \<open>[s, e)\<close> before.
\<close>

theorem CostManager_operations_keep_invariant:
  assumes "active_inv m"
  shows "(\<forall>p < length (head m). active_inv (PopInterval m (Some p))) \<and>
         active_inv (PopInterval m None) \<and>
         (\<forall>i c. active_inv (UpdateCostAtIndex m i c)) \<and>
         (\<forall>dc position len.
            cache_tiles (cost_cache m) (cache_intervals m) 0 K \<longrightarrow>
            active_inv (PushInterval m dc position len)) \<and>
         (\<forall>hint cost position s e.
            valid_ptr (head m) hint \<and> (\<forall>J \<in> set (head m). i_end J \<le> s \<or> e \<le> i_start J) \<longrightarrow>
            active_inv (fst (InsertInterval m hint cost position s e)))"
proof (intro conjI allI impI)
  fix p assume "p < length (head m)"
  then show "active_inv (PopInterval m (Some p))" by (rule PopInterval_active_inv[OF assms])
next
  show "active_inv (PopInterval m None)" using assms by (simp add: PopInterval_def)
next
  fix i c show "active_inv (UpdateCostAtIndex m i c)"
    by (rule UpdateCostAtIndex_active_inv[OF assms])
next
  fix dc position len
  assume "cache_tiles (cost_cache m) (cache_intervals m) 0 K"
  then show "active_inv (PushInterval m dc position len)"
    by (rule PushInterval_active_inv[OF assms])
next
  fix hint cost position s e
  assume "valid_ptr (head m) hint \<and> (\<forall>J \<in> set (head m). i_end J \<le> s \<or> e \<le> i_start J)"
  then show "active_inv (fst (InsertInterval m hint cost position s e))"
    using InsertInterval_active_inv[OF assms] by blast
qed

text \<open>
  On the example: \<^verbatim>\<open>InsertInterval\<close> links a new node in front of the list, and one
  behind it; \<^verbatim>\<open>PushInterval(manager, 4, 6, 14)\<close> removes \<open>[6, 10)\<close>, trims and replaces
  \<open>[10, 15)\<close> and stores four nodes, two of them in allocated storage;
  \<^verbatim>\<open>PopInterval\<close> unlinks the third node; \<^verbatim>\<open>UpdateCostAtIndex(manager, 9, 1)\<close> removes
  the two nodes that end before pixel 9.
\<close>

theorem CostManager_operations_keep_invariant_witness:
  "active_inv (fst (InsertInterval example_manager_alloc (Some 3) 9 0 0 2)) \<and>
   map i_start (head (fst (InsertInterval example_manager_alloc (Some 3) 9 0 0 2)))
     = [0, 3, 4, 6, 10] \<and>
   count (fst (InsertInterval example_manager_alloc (Some 3) 9 0 0 2)) = 5 \<and>
   active_inv (fst (InsertInterval example_manager_alloc (Some 0) 9 20 20 23)) \<and>
   map i_start (head (fst (InsertInterval example_manager_alloc (Some 0) 9 20 20 23)))
     = [3, 4, 6, 10, 20] \<and>
   active_inv (PushInterval example_manager_alloc 4 6 14) \<and>
   map (\<lambda>I. (i_start I, i_end I, i_cost I)) (head (PushInterval example_manager_alloc 4 6 14))
     = [(3, 4, 5), (4, 6, 6), (6, 7, 4), (7, 9, 5), (9, 13, 6), (13, 20, 7)] \<and>
   count (PushInterval example_manager_alloc 4 6 14) = 6 \<and>
   active_inv (PopInterval example_manager_alloc (Some 2)) \<and>
   count (PopInterval example_manager_alloc (Some 2)) = 3 \<and>
   active_inv (UpdateCostAtIndex example_manager_alloc 9 True) \<and>
   count (UpdateCostAtIndex example_manager_alloc 9 True) = 2"
proof -
  have a: "active_inv example_manager_alloc" by code_simp
  have t: "cache_tiles (cost_cache example_manager_alloc)
             (cache_intervals example_manager_alloc) 0 20"
    by code_simp
  have l: "(2::nat) < length (head example_manager_alloc)"
    by (simp add: example_manager_alloc_def example_manager_pushed_def)
  have v: "valid_ptr (head example_manager_alloc) (Some 3)"
    "valid_ptr (head example_manager_alloc) (Some 0)"
    by (simp_all add: example_manager_alloc_def example_manager_pushed_def)
  have d: "\<forall>J \<in> set (head example_manager_alloc). i_end J \<le> 0 \<or> 2 \<le> i_start J"
    "\<forall>J \<in> set (head example_manager_alloc). i_end J \<le> 20 \<or> 23 \<le> i_start J"
    by (simp_all add: example_manager_alloc_def example_manager_pushed_def)
  have c1: "map i_start (head (fst (InsertInterval example_manager_alloc (Some 3) 9 0 0 2)))
     = [0, 3, 4, 6, 10]"
    by code_simp
  have c2: "count (fst (InsertInterval example_manager_alloc (Some 3) 9 0 0 2)) = 5"
    by code_simp
  have c3: "map i_start (head (fst (InsertInterval example_manager_alloc (Some 0) 9 20 20 23)))
     = [3, 4, 6, 10, 20]"
    by code_simp
  have c4: "map (\<lambda>I. (i_start I, i_end I, i_cost I))
              (head (PushInterval example_manager_alloc 4 6 14))
     = [(3, 4, 5), (4, 6, 6), (6, 7, 4), (7, 9, 5), (9, 13, 6), (13, 20, 7)]"
    by code_simp
  have c5: "count (PushInterval example_manager_alloc 4 6 14) = 6" by code_simp
  have c6: "count (PopInterval example_manager_alloc (Some 2)) = 3" by code_simp
  have c7: "count (UpdateCostAtIndex example_manager_alloc 9 True) = 2" by code_simp
  from CostManager_operations_keep_invariant[OF a, of 20] l t v d
  have "active_inv (fst (InsertInterval example_manager_alloc (Some 3) 9 0 0 2))"
    "active_inv (fst (InsertInterval example_manager_alloc (Some 0) 9 20 20 23))"
    "active_inv (PushInterval example_manager_alloc 4 6 14)"
    "active_inv (PopInterval example_manager_alloc (Some 2))"
    "active_inv (UpdateCostAtIndex example_manager_alloc 9 True)"
    by blast+
  then show ?thesis using c1 c2 c3 c4 c5 c6 c7 by simp
qed

section \<open>The distance-only pass\<close>

subsection \<open>Initialisation of the manager\<close>

definition WEBP_INT64_MAX :: int where
  "WEBP_INT64_MAX = 2 ^ 63 - 1"

definition CostIntervalAddToFreeList :: "CostManager \<Rightarrow> nat \<Rightarrow> CostManager" where
  "CostIntervalAddToFreeList manager interval =
     manager\<lparr>free_intervals := interval # free_intervals manager\<rparr>"

definition CostManagerInitFreeList :: "CostManager \<Rightarrow> CostManager" where
  "CostManagerInitFreeList manager =
     fold (\<lambda>i m. CostIntervalAddToFreeList m i) [0..<COST_MANAGER_MAX_FREE_LIST]
       (manager\<lparr>free_intervals := []\<rparr>)"

text \<open>
  The loop of \<^verbatim>\<open>CostManagerInit\<close> that fills \<^verbatim>\<open>cache_intervals\<close>: \<open>filled\<close> are the
  intervals before \<^verbatim>\<open>cur\<close>, \<open>cur\<close> is the interval \<^verbatim>\<open>*cur\<close>, \<open>cc\<close> is \<^verbatim>\<open>cost_cache\<close>. (\<^verbatim>\<open>cache_intervals_size\<close>,
  which a first loop counts, is the length of the list that this loop fills; the code
  asserts that the two agree.)
\<close>

function fill_cache_intervals ::
  "int list \<Rightarrow> int \<Rightarrow> int \<Rightarrow> CostCacheInterval list \<Rightarrow> CostCacheInterval \<Rightarrow>
   CostCacheInterval list" where
  "fill_cache_intervals cc cost_cache_size i filled cur =
     (if i < cost_cache_size
      then (let cost_val = cc ! nat i
            in if cost_val \<noteq> c_cost cur
               then fill_cache_intervals cc cost_cache_size (i + 1) (filled @ [cur])
                      \<lparr>c_cost = cost_val, c_start = i, c_end = i + 1\<rparr>
               else fill_cache_intervals cc cost_cache_size (i + 1) filled
                      (cur\<lparr>c_end := i + 1\<rparr>))
      else filled @ [cur])"
  by pat_completeness auto
termination
  by (relation "measure (\<lambda>(cc, size, i, filled, cur). nat (size - i))") auto

declare fill_cache_intervals.simps [simp del]

text \<open>
  \<^verbatim>\<open>CostManagerInit\<close>. The two flags say whether the allocations of \<^verbatim>\<open>cache_intervals\<close>
  and of \<^verbatim>\<open>costs\<close> succeed; on a failure the function returns \<open>0\<close>, here \<open>None\<close>.
\<close>

definition CostManagerInit ::
  "'cc Collab \<Rightarrow> bool \<Rightarrow> bool \<Rightarrow> CostManager \<Rightarrow> nat list \<Rightarrow> int \<Rightarrow> CostModel \<Rightarrow>
   CostManager option" where
  "CostManagerInit env intervals_ok costs_ok manager0 dist_array0 pix_count cost_model =
     (let cost_cache_size = (if pix_count > max_length env then max_length env else pix_count);
          manager1 = CostManagerInitFreeList
                       (manager0\<lparr>costs := [], cache_intervals := [], head := [],
                                 recycled_intervals := [], count := 0,
                                 dist_array := dist_array0\<rparr>);
          cc = fold (\<lambda>i cc. cc[i := GetLengthCost (prefix_encode_bits env)
                                       (log_2_precision_bits env) cost_model (word_of_int (int i))])
                 [0..<nat cost_cache_size] (cost_cache manager1);
          manager2 = manager1\<lparr>cost_cache := cc\<rparr>
      in if \<not> intervals_ok then None
         else (let manager3 = manager2\<lparr>cache_intervals :=
                        fill_cache_intervals cc cost_cache_size 1 []
                          \<lparr>c_cost = cc ! 0, c_start = 0, c_end = 1\<rparr>\<rparr>
               in if \<not> costs_ok then None
                  else Some (manager3\<lparr>costs := replicate (nat pix_count) WEBP_INT64_MAX\<rparr>)))"

subsection \<open>The loop over the pixels\<close>

text \<open>The local variables of \<^verbatim>\<open>BackwardReferencesHashChainDistanceOnly\<close>.\<close>

record 'cc dp_state =
  manager :: CostManager
  hashers :: 'cc
  offset_prev :: int
  len_prev :: int
  offset_cost :: int
  first_offset_is_constant :: int
  reach :: int

text \<open>
  The hash chain is the function \<open>hash_chain\<close>: \<open>hash_chain i\<close> is the pair
  \<open>(offset, len)\<close> that \<^verbatim>\<open>VP8LHashChainFindCopy\<close> stores for position \<open>i\<close>. The loop
  below is the search for the last pixel \<open>j\<close> with the same offset; it returns \<open>j\<close> and
  \<^verbatim>\<open>len_j\<close>.
\<close>

function find_same_offset :: "(int \<Rightarrow> int \<times> int) \<Rightarrow> int \<Rightarrow> int \<Rightarrow> int \<Rightarrow> int \<Rightarrow> int \<times> int" where
  "find_same_offset hash_chain offset reach0 j len_j =
     (if j \<le> reach0
      then (case hash_chain (j + 1) of
              (offset_j, len_j') \<Rightarrow>
                if offset_j \<noteq> offset then (j, snd (hash_chain j))
                else find_same_offset hash_chain offset reach0 (j + 1) len_j')
      else (j, len_j))"
  by pat_completeness auto
termination
  by (relation "measure (\<lambda>(hc, offset, reach0, j, len_j). nat (reach0 + 1 - j))") auto

declare find_same_offset.simps [simp del]

text \<open>The literal step of iteration \<open>i\<close>, with \<open>prev_cost\<close> read before.\<close>

definition dp_literal ::
  "'cc Collab \<Rightarrow> uint32_t list \<Rightarrow> bool \<Rightarrow> CostModel \<Rightarrow> int \<Rightarrow> int \<Rightarrow> 'cc dp_state \<Rightarrow>
   'cc dp_state" where
  "dp_literal env argb use_color_cache cost_model i prev_cost st =
     (case AddSingleLiteralWithCostModel env argb (hashers st) cost_model i use_color_cache
             prev_cost (costs (manager st)) (dist_array (manager st)) of
        (hashers', cost', dist_array') \<Rightarrow>
          st\<lparr>hashers := hashers',
             manager := (manager st)\<lparr>costs := cost', dist_array := dist_array'\<rparr>\<rparr>)"

text \<open>The branch \<open>len \<ge> 2\<close> of iteration \<open>i\<close>.\<close>

definition dp_copy ::
  "'cc Collab \<Rightarrow> int \<Rightarrow> CostModel \<Rightarrow> (int \<Rightarrow> int \<times> int) \<Rightarrow> int \<Rightarrow> int \<Rightarrow> int \<Rightarrow> int \<Rightarrow>
   'cc dp_state \<Rightarrow> 'cc dp_state" where
  "dp_copy env xsize cost_model hash_chain i prev_cost offset len st =
     (if offset \<noteq> offset_prev st
      then (let code = distance_to_plane_code env xsize offset;
                oc = GetDistanceCost (prefix_encode_bits env) (log_2_precision_bits env)
                       cost_model (word_of_int code)
            in st\<lparr>offset_cost := oc, first_offset_is_constant := 1,
                  manager := PushInterval (manager st) (prev_cost + oc) i len\<rparr>)
      else (let st1 = (if first_offset_is_constant st \<noteq> 0
                       then st\<lparr>reach := i - 1 + len_prev st - 1,
                               first_offset_is_constant := 0\<rparr>
                       else st)
            in if i + len - 1 > reach st1
               then (case find_same_offset hash_chain offset (reach st1) i 0 of
                       (j, len_j) \<Rightarrow>
                         (let m1 = UpdateCostAtIndex (manager st1) (j - 1) False;
                              m2 = UpdateCostAtIndex m1 j False;
                              m3 = PushInterval m2 (costs m2 ! nat (j - 1) + offset_cost st1)
                                     j len_j
                          in st1\<lparr>manager := m3, reach := j + len_j - 1\<rparr>))
               else st1))"

text \<open>Iteration \<open>i\<close> of the loop.\<close>

definition dp_step ::
  "'cc Collab \<Rightarrow> int \<Rightarrow> uint32_t list \<Rightarrow> bool \<Rightarrow> CostModel \<Rightarrow> (int \<Rightarrow> int \<times> int) \<Rightarrow> int \<Rightarrow>
   'cc dp_state \<Rightarrow> 'cc dp_state" where
  "dp_step env xsize argb use_color_cache cost_model hash_chain i st =
     (let prev_cost = costs (manager st) ! nat (i - 1)
      in case hash_chain i of
           (offset, len) \<Rightarrow>
             (let st1 = dp_literal env argb use_color_cache cost_model i prev_cost st;
                  st2 = (if len \<ge> 2
                         then dp_copy env xsize cost_model hash_chain i prev_cost offset len st1
                         else st1)
              in st2\<lparr>manager := UpdateCostAtIndex (manager st2) i True,
                     offset_prev := offset, len_prev := len\<rparr>))"

function dp_loop ::
  "'cc Collab \<Rightarrow> int \<Rightarrow> uint32_t list \<Rightarrow> bool \<Rightarrow> CostModel \<Rightarrow> (int \<Rightarrow> int \<times> int) \<Rightarrow> int \<Rightarrow> int \<Rightarrow>
   'cc dp_state \<Rightarrow> 'cc dp_state" where
  "dp_loop env xsize argb use_color_cache cost_model hash_chain i pix_count st =
     (if i < pix_count
      then dp_loop env xsize argb use_color_cache cost_model hash_chain (i + 1) pix_count
             (dp_step env xsize argb use_color_cache cost_model hash_chain i st)
      else st)"
  by pat_completeness auto
termination
  by (relation "measure (\<lambda>(env, xsize, argb, ucc, cm, hc, i, pix_count, st). nat (pix_count - i))")
     auto

declare dp_loop.simps [simp del]

subsection \<open>The whole function\<close>

text \<open>
  What the calls that can fail return in one run: the two \<^verbatim>\<open>WebPSafeCalloc\<close> of the
  function, \<^verbatim>\<open>VP8LColorCacheInit\<close> (the cache, or a failure), \<^verbatim>\<open>CostModelBuild\<close> (the cost
  model it fills, or a failure), the two allocations of \<^verbatim>\<open>CostManagerInit\<close>, the
  allocations of interval nodes, and the error flag of \<^verbatim>\<open>refs\<close>. \<open>uninitialized_cache\<close>
  is the content of \<^verbatim>\<open>hashers\<close> when the colour cache is not used.
\<close>

record 'cc Outcomes =
  cost_model_alloc :: bool
  cost_manager_alloc :: bool
  color_cache_init :: "'cc option"
  uninitialized_cache :: 'cc
  cost_model_build :: "CostModel option"
  cache_intervals_alloc :: bool
  costs_alloc :: bool
  interval_allocs :: "nat option list"
  refs_error :: bool

text \<open>The manager as \<^verbatim>\<open>WebPSafeCalloc\<close> returns it.\<close>

definition calloc_manager :: "'cc Collab \<Rightarrow> nat option list \<Rightarrow> CostManager" where
  "calloc_manager env allocs =
     \<lparr>head = [], count = 0, cache_intervals = [],
      cost_cache = replicate (nat (max_length env)) 0, costs = [], dist_array = [],
      free_intervals = [], recycled_intervals = [], malloc_results = allocs\<rparr>"

text \<open>
  The function up to the end of the loop over the pixels, the loop running for
  \<open>1 \<le> i < stop\<close>: the state in which the loop is left, \<open>None\<close> when the function
  goes to \<^verbatim>\<open>Error\<close> before. With \<open>stop = pix_count\<close> this is the loop of the source;
  with a smaller \<open>stop\<close> it is the state in which iteration \<open>stop\<close> begins.
  \<open>dist_array0\<close> is the caller's array \<^verbatim>\<open>dist_array\<close> at the call.
\<close>

definition distance_only_upto ::
  "'cc Collab \<Rightarrow> 'cc Outcomes \<Rightarrow> int \<Rightarrow> int \<Rightarrow> uint32_t list \<Rightarrow> int \<Rightarrow> (int \<Rightarrow> int \<times> int) \<Rightarrow>
   nat list \<Rightarrow> int \<Rightarrow> 'cc dp_state option" where
  "distance_only_upto env out xsize ysize argb cache_bits hash_chain dist_array0 stop =
     (let pix_count = xsize * ysize;
          use_color_cache = (cache_bits > 0)
      in if \<not> cost_model_alloc out \<or> \<not> cost_manager_alloc out then None
         else if use_color_cache \<and> color_cache_init out = None then None
         else (case cost_model_build out of
                 None \<Rightarrow> None
               | Some cost_model \<Rightarrow>
                  (case CostManagerInit env (cache_intervals_alloc out) (costs_alloc out)
                          (calloc_manager env (interval_allocs out)) dist_array0 pix_count
                          cost_model of
                     None \<Rightarrow> None
                   | Some cost_manager \<Rightarrow>
                      (let st0 = \<lparr>manager = cost_manager\<lparr>dist_array :=
                                               (dist_array cost_manager)[0 := 0]\<rparr>,
                                  hashers = (if use_color_cache then the (color_cache_init out)
                                             else uninitialized_cache out),
                                  offset_prev = - 1, len_prev = - 1, offset_cost = - 1,
                                  first_offset_is_constant = - 1, reach = 0\<rparr>;
                           st1 = dp_literal env argb use_color_cache cost_model 0 0 st0
                       in Some (dp_loop env xsize argb use_color_cache cost_model hash_chain 1
                                  stop st1)))))"

definition distance_only_loop ::
  "'cc Collab \<Rightarrow> 'cc Outcomes \<Rightarrow> int \<Rightarrow> int \<Rightarrow> uint32_t list \<Rightarrow> int \<Rightarrow> (int \<Rightarrow> int \<times> int) \<Rightarrow>
   nat list \<Rightarrow> 'cc dp_state option" where
  "distance_only_loop env out xsize ysize argb cache_bits hash_chain dist_array0 =
     distance_only_upto env out xsize ysize argb cache_bits hash_chain dist_array0
       (xsize * ysize)"

text \<open>
  The function returns \<^verbatim>\<open>ok\<close>; \<^verbatim>\<open>dist_array\<close> is the caller's array, which the model
  returns with it.
\<close>

definition BackwardReferencesHashChainDistanceOnly ::
  "'cc Collab \<Rightarrow> 'cc Outcomes \<Rightarrow> int \<Rightarrow> int \<Rightarrow> uint32_t list \<Rightarrow> int \<Rightarrow> (int \<Rightarrow> int \<times> int) \<Rightarrow>
   nat list \<Rightarrow> bool \<times> nat list" where
  "BackwardReferencesHashChainDistanceOnly env out xsize ysize argb cache_bits hash_chain
     dist_array0 =
     (case distance_only_loop env out xsize ysize argb cache_bits hash_chain dist_array0 of
        None \<Rightarrow> (False, dist_array0)
      | Some st \<Rightarrow> (\<not> refs_error out, dist_array (manager st)))"

subsection \<open>What the pass keeps true of the manager\<close>

text \<open>
  \<open>costs_ok N m\<close>: both arrays have \<open>N\<close> entries, no cost exceeds the initial value
  \<^verbatim>\<open>WEBP_INT64_MAX\<close>, and a pixel whose cost was lowered has a hop length between \<open>1\<close> and
  its position plus one. \<open>nodes_ok m\<close>: every interval of the list starts at or after the
  pixel \<^verbatim>\<open>index\<close> that pushed it, which is not negative, and ends at most \<open>65535\<close>
  pixels after it.
\<close>

definition costs_ok :: "nat \<Rightarrow> CostManager \<Rightarrow> bool" where
  "costs_ok N m =
     (length (costs m) = N \<and> length (dist_array m) = N \<and>
      (\<forall>j < N. costs m ! j \<le> WEBP_INT64_MAX) \<and>
      (\<forall>j < N. costs m ! j < WEBP_INT64_MAX \<longrightarrow>
                1 \<le> dist_array m ! j \<and> dist_array m ! j \<le> j + 1))"

definition nodes_ok :: "CostManager \<Rightarrow> bool" where
  "nodes_ok m =
     (\<forall>I \<in> set (head m). 0 \<le> i_index I \<and> i_index I \<le> i_start I \<and>
                           i_end I - i_index I \<le> 65535)"

text \<open>
  \<open>good N pos m0 m\<close>: \<open>m\<close> satisfies both, has the cache intervals and \<^verbatim>\<open>cost_cache\<close> of
  \<open>m0\<close>, no cost above that of \<open>m0\<close>, and the entries of \<open>m0\<close> for the pixels before
  \<open>pos\<close>.
\<close>

definition good :: "nat \<Rightarrow> int \<Rightarrow> CostManager \<Rightarrow> CostManager \<Rightarrow> bool" where
  "good N pos m0 m =
     (costs_ok N m \<and> nodes_ok m \<and> cache_intervals m = cache_intervals m0 \<and>
      cost_cache m = cost_cache m0 \<and>
      (\<forall>j < N. costs m ! j \<le> costs m0 ! j) \<and>
      (\<forall>j < N. int j < pos \<longrightarrow>
         costs m ! j = costs m0 ! j \<and> dist_array m ! j = dist_array m0 ! j))"

lemma good_refl: "costs_ok N m \<Longrightarrow> nodes_ok m \<Longrightarrow> good N pos m m"
  by (simp add: good_def)

lemma good_head:
  assumes "good N pos m0 m" "nodes_ok (m\<lparr>head := xs\<rparr>)"
  shows "good N pos m0 (m\<lparr>head := xs\<rparr>)"
  using assms by (simp add: good_def costs_ok_def)

lemma good_only_list:
  assumes "good N pos m0 m" "nodes_ok m'" "costs m' = costs m" "dist_array m' = dist_array m"
    "cache_intervals m' = cache_intervals m" "cost_cache m' = cost_cache m"
  shows "good N pos m0 m'"
  using assms by (simp add: good_def costs_ok_def)

lemma good_UpdateCost:
  assumes g: "good N pos m0 m" and i: "0 \<le> idx" "idx \<le> i" "i - idx < 65535" "pos \<le> i"
  shows "good N pos m0 (UpdateCost m i idx c)"
proof (cases "c < costs m ! nat i \<and> nat i < N")
  case False
  have "UpdateCost m i idx c = m"
  proof (cases "nat i < N")
    case True
    with False show ?thesis by (simp add: UpdateCost_def Let_def)
  next
    case False
    then have "length (costs m) \<le> nat i" "length (dist_array m) \<le> nat i"
      using g by (simp_all add: good_def costs_ok_def)
    then show ?thesis by (simp add: UpdateCost_def Let_def list_update_beyond)
  qed
  then show ?thesis using g by simp
next
  case True
  let ?m' = "UpdateCost m i idx c"
  have l: "length (costs m) = N" "length (dist_array m) = N"
    using g by (simp_all add: good_def costs_ok_def)
  have md: "(i - idx + 1) mod 65536 = i - idx + 1" using i by simp
  have c': "costs ?m' ! j = (if j = nat i then c else costs m ! j)" if "j < N" for j
    using that True l by (simp add: UpdateCost_costs_nth)
  have d': "dist_array ?m' ! j = (if j = nat i then nat (i - idx + 1) else dist_array m ! j)"
    if "j < N" for j
    using that True l by (simp add: UpdateCost_dist_nth md)
  have h: "head ?m' = head m" "cache_intervals ?m' = cache_intervals m"
    "cost_cache ?m' = cost_cache m"
    using only_costs_fields[OF only_costs_UpdateCost, of m i idx c] by simp_all
  have cm: "c < WEBP_INT64_MAX"
    using True g by (fastforce simp: good_def costs_ok_def)
  have dn: "1 \<le> nat (i - idx + 1)" "nat (i - idx + 1) \<le> nat i + 1" using i by simp_all
  have co: "costs_ok N ?m'"
    unfolding costs_ok_def
    using g c' d' cm dn l by (auto simp: good_def costs_ok_def UpdateCost_length)
  have no: "nodes_ok ?m'" using g by (simp add: good_def nodes_ok_def h)
  have ni: "int j < pos \<Longrightarrow> j \<noteq> nat i" for j using i by auto
  show ?thesis
    unfolding good_def
    using co no g h c' d' True ni by (auto simp: good_def)
qed

lemma good_UpdateCostPerInterval:
  assumes "good N pos m0 m" "0 \<le> idx" "idx \<le> s" "e - idx \<le> 65535" "pos \<le> s"
  shows "good N pos m0 (UpdateCostPerInterval m s e idx c)"
  using assms
proof (induction m s e idx c rule: UpdateCostPerInterval.induct)
  case (1 m s e idx c)
  show ?case
  proof (cases "s < e")
    case True
    have "good N pos m0 (UpdateCost m s idx c)"
      by (rule good_UpdateCost[OF "1.prems"(1,2,3)]) (use True "1.prems" in simp_all)
    from "1.IH"[OF True this "1.prems"(2)] "1.prems" True show ?thesis
      by (subst UpdateCostPerInterval_unfold) simp
  next
    case False
    then show ?thesis using "1.prems"(1) by (subst UpdateCostPerInterval_unfold) simp
  qed
qed

lemma good_malloc:
  "good N pos m0 m \<Longrightarrow> good N pos m0 (m\<lparr>malloc_results := r\<rparr>)"
  by (simp add: good_def costs_ok_def nodes_ok_def)

lemma good_InsertInterval:
  assumes g: "good N pos m0 m" and i: "0 \<le> idx" "idx \<le> s" "e - idx \<le> 65535" "pos \<le> s"
    and ins: "InsertInterval m hint c idx s e = (m', q)"
  shows "good N pos m0 m'"
proof (cases "s < e")
  case False
  then show ?thesis using ins g by (simp add: InsertInterval_empty)
next
  case True
  show ?thesis
  proof (cases "will_store m s e")
    case False
    from InsertInterval_serialize[OF True False, of hint c idx] ins
    obtain r where "m' = (UpdateCostPerInterval m s e idx c)\<lparr>malloc_results := r\<rparr>" by auto
    then show ?thesis
      using good_malloc[OF good_UpdateCostPerInterval[OF g i]] by simp
  next
    case True
    from InsertInterval_store[OF True, of hint c idx] ins
    obtain f r ml where m': "m' = m\<lparr>head := take (orphan_position (head m) s hint) (head m) @
                \<lparr>i_cost = c, i_start = s, i_end = e, i_index = idx, i_addr = new_addr m\<rparr> #
                drop (orphan_position (head m) s hint) (head m),
              count := count m + 1,
              free_intervals := f, recycled_intervals := r, malloc_results := ml\<rparr>"
      by auto
    have "nodes_ok m'"
      unfolding m' using g i
      by (auto simp: good_def nodes_ok_def dest: in_set_takeD in_set_dropD)
    then show ?thesis
      by (rule good_only_list[OF g]) (simp_all add: m')
  qed
qed

lemma nodes_ok_update:
  assumes "nodes_ok m" "p < length (head m)"
    "0 \<le> i_index J" "i_index J \<le> i_start J" "i_end J - i_index J \<le> 65535"
  shows "nodes_ok (m\<lparr>head := (head m)[p := J]\<rparr>)"
  using assms set_update_subset_insert[of "head m" p J]
  by (auto simp: nodes_ok_def)

lemma nodes_ok_nth:
  assumes "nodes_ok m" "p < length (head m)"
  shows "0 \<le> i_index (head m ! p)" "i_index (head m ! p) \<le> i_start (head m ! p)"
    "i_end (head m ! p) - i_index (head m ! p) \<le> 65535"
  using assms nth_mem[of p "head m"] by (auto simp: nodes_ok_def)

lemma good_PopInterval:
  assumes "good N pos m0 m"
  shows "good N pos m0 (PopInterval m ptr)"
proof (cases ptr)
  case None
  then show ?thesis using assms by (simp add: PopInterval_def)
next
  case (Some p)
  have "nodes_ok (PopInterval m (Some p))"
    using assms
    by (auto simp: good_def nodes_ok_def head_PopInterval dest: in_set_takeD in_set_dropD)
  then show ?thesis
    unfolding Some
    by (rule good_only_list[OF assms]) (simp_all add: PopInterval_def Let_def)
qed

text \<open>
  One pass of the inner loop of \<^verbatim>\<open>PushInterval\<close>, for the segment \<open>[start, e)\<close> pushed
  from \<open>position\<close>.
\<close>

lemma push_step_good:
  assumes g: "good N pos m0 m" and p: "p < length (head m)"
    and lc: "i_start (head m ! p) < e"
    and h: "0 \<le> position" "pos \<le> position" "position \<le> start" "position \<le> e"
      "e - position \<le> 65535"
    and st: "push_step m p start e cost position = (b, m', ptr', start')"
  shows "good N pos m0 m' \<and> position \<le> start'"
proof -
  have no: "nodes_ok m" using g by (simp add: good_def)
  note n = nodes_ok_nth[OF no p]
  from st show ?thesis
  proof (cases rule: push_step_cases)
    case skip
    then show ?thesis using g h by simp
  next
    case (worse q)
    have "good N pos m0 m'"
      by (rule good_InsertInterval[OF g _ _ _ _ worse(3)]) (use h lc in simp_all)
    then show ?thesis using worse(1,4) h by simp
  next
    case pop
    then show ?thesis using good_PopInterval[OF g] h by simp
  next
    case left
    have "nodes_ok (m\<lparr>head := (head m)[p := (head m ! p)\<lparr>i_start := e\<rparr>]\<rparr>)"
      by (rule nodes_ok_update[OF no p]) (use n lc in simp_all)
    then have "good N pos m0 m'" unfolding left(6) by (rule good_head[OF g])
    then show ?thesis using left(8) h by simp
  next
    case (split q)
    have "nodes_ok (m\<lparr>head := (head m)[p := (head m ! p)\<lparr>i_end := start\<rparr>]\<rparr>)"
      by (rule nodes_ok_update[OF no p]) (use n split(1,3) in simp_all)
    then have g1: "good N pos m0 (m\<lparr>head := (head m)[p := (head m ! p)\<lparr>i_end := start\<rparr>]\<rparr>)"
      by (rule good_head[OF g])
    have "good N pos m0 m'"
      by (rule good_InsertInterval[OF g1 _ _ _ _ split(6)]) (use n h lc in simp_all)
    then show ?thesis using split(8) h by simp
  next
    case right
    have "nodes_ok (m\<lparr>head := (head m)[p := (head m ! p)\<lparr>i_end := start\<rparr>]\<rparr>)"
      by (rule nodes_ok_update[OF no p]) (use n right(1,3) in simp_all)
    then have "good N pos m0 m'" unfolding right(6) by (rule good_head[OF g])
    then show ?thesis using right(8) h by simp
  qed
qed

lemma push_loop_good:
  assumes g: "good N pos m0 m" and v: "valid_ptr (head m) ptr"
    and h: "0 \<le> position" "pos \<le> position" "position \<le> start" "position \<le> e"
      "e - position \<le> 65535"
  shows "case push_loop m ptr start e cost position of
           (m', ptr', start') \<Rightarrow>
             good N pos m0 m' \<and> position \<le> start' \<and> valid_ptr (head m') ptr'"
proof -
  let ?Q = "\<lambda>m ptr start. good N pos m0 m \<and> position \<le> start \<and> valid_ptr (head m) ptr"
  have step: "?Q m2 ptr2 start2"
    if a: "?Q m1 (Some p) start1" "p < length (head m1)" "i_start (head m1 ! p) < e"
      "push_step m1 p start1 e cost position = (b, m2, ptr2, start2)"
    for m1 p start1 b m2 ptr2 start2
  proof -
    have "good N pos m0 m2 \<and> position \<le> start2"
      by (rule push_step_good[OF _ a(2,3) h(1,2) _ h(4,5) a(4)]) (use a(1) in simp_all)
    then show ?thesis using push_step_basic(3)[OF a(4,2)] by simp
  qed
  show ?thesis
  proof (rule push_loop_rule[where Inv = ?Q and Q = ?Q])
    show "?Q m ptr start" using g h v by simp
    show "valid_ptr (head m) ptr" by (rule v)
  next
    fix m1 p start1 m2 ptr2 start2
    assume "?Q m1 (Some p) start1" "p < length (head m1)" "i_start (head m1 ! p) < e"
      "push_step m1 p start1 e cost position = (True, m2, ptr2, start2)"
    then show "?Q m2 ptr2 start2" by (rule step)
  next
    fix m1 p start1 m2 ptr2 start2
    assume "?Q m1 (Some p) start1" "p < length (head m1)" "i_start (head m1 ! p) < e"
      "push_step m1 p start1 e cost position = (False, m2, ptr2, start2)"
    then show "?Q m2 ptr2 start2" by (rule step)
  qed
qed

lemma push_segments_good:
  assumes "good N pos m0 m" "valid_ptr (head m) ptr" "0 \<le> position" "pos \<le> position"
    "len \<le> 65535" "\<forall>ci \<in> set cis. 0 \<le> c_start ci \<and> 0 \<le> c_end ci"
  shows "good N pos m0 (push_segments m ptr dc position len cis)"
  using assms
proof (induction cis arbitrary: m ptr)
  case Nil
  then show ?case by simp
next
  case (Cons ci cis)
  show ?case
  proof (cases "c_start ci < len")
    case False
    then show ?thesis using Cons.prems(1) by simp
  next
    case True
    define s where "s = position + c_start ci"
    define e where "e = position + (if c_end ci > len then len else c_end ci)"
    define c where "c = dc + c_cost ci"
    have ci: "0 \<le> c_start ci" "0 \<le> c_end ci" using Cons.prems(6) by simp_all
    have b: "position \<le> s" "position \<le> e" "e - position \<le> 65535"
      using ci True Cons.prems(5) by (simp_all add: s_def e_def)
    obtain m1 ptr1 start1 where l: "push_loop m ptr s e c position = (m1, ptr1, start1)"
      by (cases "push_loop m ptr s e c position") auto
    obtain m2 q where i: "InsertInterval m1 ptr1 c position start1 e = (m2, q)"
      by (cases "InsertInterval m1 ptr1 c position start1 e") auto
    from push_loop_good[OF Cons.prems(1,2,3,4) b, of c] l
    have g1: "good N pos m0 m1" and s1: "position \<le> start1" and v1: "valid_ptr (head m1) ptr1"
      by simp_all
    have g2: "good N pos m0 m2"
      by (rule good_InsertInterval[OF g1 Cons.prems(3) s1 b(3) _ i])
         (use s1 Cons.prems(4) in simp)
    have v2: "valid_ptr (head m2) (ptr_after_insert q ptr1)"
      by (rule InsertInterval_result(4)[OF i v1])
    have eq: "push_segments m ptr dc position len (ci # cis) =
          push_segments m2 (ptr_after_insert q ptr1) dc position len cis"
      using True l i by (simp add: s_def e_def c_def Let_def)
    show ?thesis
      unfolding eq
      by (rule Cons.IH[OF g2 v2 Cons.prems(3,4,5)]) (use Cons.prems(6) in simp)
  qed
qed

lemma small_step_eq:
  "small_step m dc position j = UpdateCost m j position (dc + cost_cache m ! nat (j - position))"
  by (simp add: small_step_def UpdateCost_def Let_def)

lemma push_small_good:
  assumes "good N pos m0 m" "0 \<le> position" "position \<le> j" "pos \<le> position" "len \<le> 65535"
  shows "good N pos m0 (push_small m dc position len j)"
  using assms
proof (induction m dc position len j rule: push_small.induct)
  case (1 m dc position len j)
  show ?case
  proof (cases "j < position + len")
    case True
    have "good N pos m0 (small_step m dc position j)"
      unfolding small_step_eq
      by (rule good_UpdateCost[OF "1.prems"(1,2,3)]) (use True "1.prems" in simp_all)
    moreover have "push_small (small_step m dc position j) dc position len (j + 1) =
        push_small m dc position len j"
      using True by (subst (2) push_small_unfold) simp
    moreover have "good N pos m0 (small_step m dc position j) \<Longrightarrow>
       good N pos m0 (push_small (small_step m dc position j) dc position len (j + 1))"
      using "1.IH"[OF True refl refl] "1.prems"(2,3,4,5)
      by (simp add: small_step_def)
    ultimately show ?thesis by simp
  next
    case False
    then show ?thesis using "1.prems"(1) by (subst push_small_unfold) simp
  qed
qed

lemma PushInterval_good:
  assumes g: "good N pos m0 m" and h: "0 \<le> position" "pos \<le> position" "len \<le> 65535"
    and c: "\<forall>ci \<in> set (cache_intervals m). 0 \<le> c_start ci \<and> 0 \<le> c_end ci"
  shows "good N pos m0 (PushInterval m dc position len)"
proof (cases "len < kSkipDistance")
  case True
  then show ?thesis
    using push_small_good[OF g h(1) order_refl h(2,3)] by (simp add: PushInterval_def)
next
  case False
  then show ?thesis
    using push_segments_good[OF g valid_head_ptr h c] by (simp add: PushInterval_def)
qed

lemma UpdateCostAtIndex_good:
  assumes g: "good N pos m0 m" and i: "pos \<le> i"
  shows "good N pos m0 (UpdateCostAtIndex m i c)"
proof (rule UpdateCostAtIndex_rule[where P = "good N pos m0"])
  show "good N pos m0 m" by (rule g)
next
  fix m' p assume "good N pos m0 m'"
  then show "good N pos m0 (PopInterval m' (Some p))" by (rule good_PopInterval)
next
  fix m' p
  assume a: "good N pos m0 m'" "p < length (head m')" "i_start (head m' ! p) \<le> i"
    "i < i_end (head m' ! p)"
  have no: "nodes_ok m'" using a(1) by (simp add: good_def)
  note n = nodes_ok_nth[OF no a(2)]
  show "good N pos m0 (UpdateCost m' i (i_index (head m' ! p)) (i_cost (head m' ! p)))"
    by (rule good_UpdateCost[OF a(1) n(1)]) (use n a(3,4) i in simp_all)
qed

lemma good_trans:
  assumes "good N pos m0 m1" "good N pos m1 m2"
  shows "good N pos m0 m2"
  using assms unfolding good_def by (auto intro: order_trans)

lemma good_mono:
  assumes "good N pos m0 m" "pos' \<le> pos"
  shows "good N pos' m0 m"
  using assms unfolding good_def by auto

subsection \<open>What CostManagerInit builds\<close>

lemma cache_tiles_le: "cache_tiles cc cis s e \<Longrightarrow> s \<le> e"
  by (induction cis arbitrary: s) fastforce+

lemma cache_tiles_append:
  "cache_tiles cc (xs @ ys) s e = (\<exists>mid. cache_tiles cc xs s mid \<and> cache_tiles cc ys mid e)"
proof (induction xs arbitrary: s)
  case Nil
  show ?case by simp
next
  case (Cons ci xs)
  show ?case
  proof
    assume a: "cache_tiles cc ((ci # xs) @ ys) s e"
    then obtain mid where m: "cache_tiles cc xs (c_end ci) mid" "cache_tiles cc ys mid e"
      using Cons.IH[of "c_end ci"] by auto
    have "c_end ci \<le> mid" by (rule cache_tiles_le[OF m(1)])
    then have "cache_tiles cc (ci # xs) s mid" using a m(1) by simp
    then show "\<exists>mid. cache_tiles cc (ci # xs) s mid \<and> cache_tiles cc ys mid e"
      using m(2) by blast
  next
    assume "\<exists>mid. cache_tiles cc (ci # xs) s mid \<and> cache_tiles cc ys mid e"
    then obtain mid where m: "cache_tiles cc (ci # xs) s mid" "cache_tiles cc ys mid e" by blast
    have "mid \<le> e" by (rule cache_tiles_le[OF m(2)])
    moreover have "cache_tiles cc (xs @ ys) (c_end ci) e"
      using Cons.IH[of "c_end ci"] m by auto
    ultimately show "cache_tiles cc ((ci # xs) @ ys) s e" using m(1) by simp
  qed
qed

lemma cache_tiles_single:
  assumes "s < e" "\<And>k. s \<le> k \<Longrightarrow> k < e \<Longrightarrow> cc ! nat k = c"
  shows "cache_tiles cc [\<lparr>c_cost = c, c_start = s, c_end = e\<rparr>] s e"
  using assms by simp

lemma fill_cache_intervals_unfold:
  "fill_cache_intervals cc n i filled cur =
     (if i < n
      then (if cc ! nat i \<noteq> c_cost cur
            then fill_cache_intervals cc n (i + 1) (filled @ [cur])
                   \<lparr>c_cost = cc ! nat i, c_start = i, c_end = i + 1\<rparr>
            else fill_cache_intervals cc n (i + 1) filled (cur\<lparr>c_end := i + 1\<rparr>))
      else filled @ [cur])"
  by (subst fill_cache_intervals.simps) (simp add: Let_def)

lemma fill_cache_intervals_tiles:
  assumes "cache_tiles cc (filled @ [cur]) 0 i" "0 \<le> i"
  shows "cache_tiles cc (fill_cache_intervals cc n i filled cur) 0 (max i n)"
  using assms
proof (induction cc n i filled cur rule: fill_cache_intervals.induct)
  case (1 cc n i filled cur)
  show ?case
  proof (cases "i < n")
    case False
    then show ?thesis
      using "1.prems"(1) by (subst fill_cache_intervals_unfold) (simp add: max_def)
  next
    case True
    then have mx: "max i n = max (i + 1) n" by simp
    from "1.prems"(1) obtain mid where m: "cache_tiles cc filled 0 mid" "c_start cur = mid"
      "mid < c_end cur" "c_end cur = i" "\<forall>k. mid \<le> k \<and> k < c_end cur \<longrightarrow> cc ! nat k = c_cost cur"
      unfolding cache_tiles_append by auto
    have mid0: "0 \<le> mid" by (rule cache_tiles_le[OF m(1)])
    show ?thesis
    proof (cases "cc ! nat i \<noteq> c_cost cur")
      case neq: True
      let ?new = "\<lparr>c_cost = cc ! nat i, c_start = i, c_end = i + 1\<rparr>"
      have "cache_tiles cc [?new] i (i + 1)"
      proof (rule cache_tiles_single)
        show "i < i + 1" by simp
        fix k assume "i \<le> k" "k < i + 1"
        then have "k = i" by simp
        then show "cc ! nat k = cc ! nat i" by simp
      qed
      then have t: "cache_tiles cc ((filled @ [cur]) @ [?new]) 0 (i + 1)"
        unfolding cache_tiles_append[of cc "filled @ [cur]"] using "1.prems"(1) by blast
      have "cache_tiles cc (fill_cache_intervals cc n (i + 1) (filled @ [cur]) ?new) 0
              (max (i + 1) n)"
        by (rule "1.IH"(1)[OF True refl neq t]) (use "1.prems"(2) in simp)
      then show ?thesis
        unfolding mx using True neq by (subst fill_cache_intervals_unfold) simp
    next
      case eq: False
      let ?cur = "cur\<lparr>c_end := i + 1\<rparr>"
      have "cache_tiles cc [\<lparr>c_cost = c_cost cur, c_start = mid, c_end = i + 1\<rparr>] mid (i + 1)"
      proof (rule cache_tiles_single)
        show "mid < i + 1" using m(3,4) by simp
        fix k assume k: "mid \<le> k" "k < i + 1"
        show "cc ! nat k = c_cost cur"
        proof (cases "k = i")
          case True
          then show ?thesis using eq by simp
        next
          case False
          then show ?thesis using k m(4,5) by simp
        qed
      qed
      moreover have "?cur = \<lparr>c_cost = c_cost cur, c_start = mid, c_end = i + 1\<rparr>"
        using m(2) by simp
      ultimately have "cache_tiles cc [?cur] mid (i + 1)" by simp
      then have t: "cache_tiles cc (filled @ [?cur]) 0 (i + 1)"
        unfolding cache_tiles_append using m(1) by blast
      have "cache_tiles cc (fill_cache_intervals cc n (i + 1) filled ?cur) 0 (max (i + 1) n)"
        by (rule "1.IH"(2)[OF True refl _ t]) (use eq "1.prems"(2) in simp_all)
      then show ?thesis
        unfolding mx using True eq by (subst fill_cache_intervals_unfold) simp
    qed
  qed
qed

lemma fold_AddToFreeList:
  "fold (\<lambda>i m. CostIntervalAddToFreeList m i) xs m =
     m\<lparr>free_intervals := rev xs @ free_intervals m\<rparr>"
  by (induction xs arbitrary: m) (simp_all add: CostIntervalAddToFreeList_def)

lemma CostManagerInitFreeList_eq:
  "CostManagerInitFreeList m = m\<lparr>free_intervals := rev [0..<COST_MANAGER_MAX_FREE_LIST]\<rparr>"
  by (simp add: CostManagerInitFreeList_def fold_AddToFreeList)

text \<open>
  When \<^verbatim>\<open>CostManagerInit\<close> succeeds the list is empty, every cost is \<^verbatim>\<open>WEBP_INT64_MAX\<close>,
  \<^verbatim>\<open>dist_array\<close> is the caller's array, and the cache intervals tile \<open>[0, K)\<close> with the
  values of \<^verbatim>\<open>cost_cache\<close>, \<open>K\<close> being the smaller of the pixel count and \<^verbatim>\<open>MAX_LENGTH\<close>
  (or \<open>1\<close> if that is less than \<open>1\<close>).
\<close>

lemma CostManagerInit_Some:
  assumes "CostManagerInit env a b m0 d pix_count cm = Some m"
  shows "head m = []" "count m = 0" "costs m = replicate (nat pix_count) WEBP_INT64_MAX"
    "dist_array m = d"
    "cache_tiles (cost_cache m) (cache_intervals m) 0
       (max 1 (if pix_count > max_length env then max_length env else pix_count))"
proof -
  define n where "n = (if pix_count > max_length env then max_length env else pix_count)"
  define m1 where "m1 = CostManagerInitFreeList
                       (m0\<lparr>costs := [], cache_intervals := [], head := [],
                                 recycled_intervals := [], count := 0,
                                 dist_array := d\<rparr>)"
  define cc where "cc = fold (\<lambda>i cc. cc[i := GetLengthCost (prefix_encode_bits env)
                                       (log_2_precision_bits env) cm (word_of_int (int i))])
                 [0..<nat n] (cost_cache m1)"
  have m: "m = m1\<lparr>cost_cache := cc,
                  cache_intervals := fill_cache_intervals cc n 1 []
                          \<lparr>c_cost = cc ! 0, c_start = 0, c_end = 1\<rparr>,
                  costs := replicate (nat pix_count) WEBP_INT64_MAX\<rparr>"
    using assms unfolding CostManagerInit_def Let_def n_def[symmetric] m1_def[symmetric]
      cc_def[symmetric]
    by (auto split: if_splits)
  have f: "head m1 = []" "count m1 = 0" "dist_array m1 = d"
    by (simp_all add: m1_def CostManagerInitFreeList_eq)
  show "head m = []" "count m = 0" "costs m = replicate (nat pix_count) WEBP_INT64_MAX"
    "dist_array m = d"
    using f by (simp_all add: m)
  have "cache_tiles cc [\<lparr>c_cost = cc ! 0, c_start = 0, c_end = 1\<rparr>] 0 1"
  proof (rule cache_tiles_single)
    show "(0::int) < 1" by simp
    fix k :: int assume "0 \<le> k" "k < 1"
    then have "k = 0" by simp
    then show "cc ! nat k = cc ! 0" by simp
  qed
  then have "cache_tiles cc ([] @ [\<lparr>c_cost = cc ! 0, c_start = 0, c_end = 1\<rparr>]) 0 1"
    by simp
  from fill_cache_intervals_tiles[OF this, of n]
  show "cache_tiles (cost_cache m) (cache_intervals m) 0
       (max 1 (if pix_count > max_length env then max_length env else pix_count))"
    by (simp add: m n_def)
qed

subsection \<open>One iteration of the pass\<close>

text \<open>
  The cost that \<^verbatim>\<open>AddSingleLiteralWithCostModel\<close> adds to \<^verbatim>\<open>prev_cost\<close> for the colour
  \<open>color\<close> when the colour cache is \<open>h\<close>.
\<close>

definition literal_edge :: "'cc Collab \<Rightarrow> CostModel \<Rightarrow> bool \<Rightarrow> 'cc \<Rightarrow> uint32_t \<Rightarrow> int" where
  "literal_edge env cost_model use_color_cache h color =
     (let ix = (if use_color_cache then cc_contains env h color else - 1)
      in if ix \<ge> 0
         then div_round env
                (GetCacheCost (num_length_codes env) cost_model (word_of_int ix) * 68) 100
         else div_round env (GetLiteralCost cost_model color * 82) 100)"

lemma dp_literal_manager:
  "manager (dp_literal env argb ucc cm i prev st) =
     UpdateCost (manager st) i i (prev + literal_edge env cm ucc (hashers st) (argb ! nat i))"
  by (simp add: dp_literal_def AddSingleLiteralWithCostModel_def UpdateCost_def Let_def
      literal_edge_def)

lemma dp_literal_fields:
  "offset_prev (dp_literal env argb ucc cm i prev st) = offset_prev st"
  "len_prev (dp_literal env argb ucc cm i prev st) = len_prev st"
  "offset_cost (dp_literal env argb ucc cm i prev st) = offset_cost st"
  "first_offset_is_constant (dp_literal env argb ucc cm i prev st) = first_offset_is_constant st"
  "reach (dp_literal env argb ucc cm i prev st) = reach st"
  by (simp_all add: dp_literal_def split: prod.split)

lemma find_same_offset_unfold:
  "find_same_offset hc offset r j len_j =
     (if j \<le> r
      then (if fst (hc (j + 1)) \<noteq> offset then (j, snd (hc j))
            else find_same_offset hc offset r (j + 1) (snd (hc (j + 1))))
      else (j, len_j))"
  by (subst find_same_offset.simps) (simp split: prod.split)

lemma find_same_offset_props:
  assumes "find_same_offset hc offset r j len_j = (j', l')" "len_j \<le> B" "\<forall>x. snd (hc x) \<le> B"
  shows "j \<le> j' \<and> l' \<le> B"
  using assms
proof (induction hc offset r j len_j rule: find_same_offset.induct)
  case (1 hc offset r j len_j)
  show ?case
  proof (cases "j \<le> r")
    case False
    then show ?thesis using "1.prems" by (subst (asm) find_same_offset_unfold) simp
  next
    case True
    show ?thesis
    proof (cases "fst (hc (j + 1)) \<noteq> offset")
      case neq: True
      then show ?thesis
        using "1.prems" True by (subst (asm) find_same_offset_unfold) auto
    next
      case False
      then have eq: "find_same_offset hc offset r (j + 1) (snd (hc (j + 1))) = (j', l')"
        using "1.prems"(1) True by (subst (asm) find_same_offset_unfold) simp
      have "j + 1 \<le> j' \<and> l' \<le> B"
        by (rule "1.IH"[OF True _ _ eq _ "1.prems"(3)])
           (use False "1.prems"(3) in \<open>auto simp: prod_eq_iff\<close>)
      then show ?thesis by simp
    qed
  qed
qed

text \<open>
  The branch \<open>len \<ge> 2\<close> of iteration \<open>i\<close> keeps \<open>good\<close>. It writes nothing before pixel
  \<open>i - 1\<close>; it writes nothing before pixel \<open>i\<close> when \<^verbatim>\<open>UpdateCostAtIndex\<close> at \<open>i - 1\<close>
  has nothing to write.
\<close>

lemma dp_copy_good:
  assumes g: "good N pos m0 (manager st)" and i: "1 \<le> i" "pos \<le> i"
    and s: "pos < i \<or> UpdateCostAtIndex (manager st) (i - 1) False = manager st"
    and hc: "\<forall>x. snd (hash_chain x) \<le> 65535" and len: "len \<le> 65535"
    and c: "\<forall>ci \<in> set (cache_intervals m0). 0 \<le> c_start ci \<and> 0 \<le> c_end ci"
  shows "good N pos m0 (manager (dp_copy env xsize cm hash_chain i prev offset len st))"
proof (cases "offset \<noteq> offset_prev st")
  case True
  have c': "\<forall>ci \<in> set (cache_intervals (manager st)). 0 \<le> c_start ci \<and> 0 \<le> c_end ci"
    using c g by (simp add: good_def)
  have "good N pos m0 (PushInterval (manager st) dc i len)" for dc
    by (rule PushInterval_good[OF g _ i(2) len c']) (use i in simp)
  then show ?thesis using True by (simp add: dp_copy_def Let_def)
next
  case False
  define st1 where "st1 = (if first_offset_is_constant st \<noteq> 0
                       then st\<lparr>reach := i - 1 + len_prev st - 1,
                               first_offset_is_constant := 0\<rparr>
                       else st)"
  have m1: "manager st1 = manager st" by (simp add: st1_def)
  show ?thesis
  proof (cases "i + len - 1 > reach st1")
    case False
    then show ?thesis
      using \<open>\<not> offset \<noteq> offset_prev st\<close> g m1
      by (simp add: dp_copy_def Let_def st1_def[symmetric])
  next
    case True
    obtain j len_j where f: "find_same_offset hash_chain offset (reach st1) i 0 = (j, len_j)"
      by (cases "find_same_offset hash_chain offset (reach st1) i 0") auto
    from find_same_offset_props[OF f _ hc] have j: "i \<le> j" "len_j \<le> 65535" by simp_all
    define ma where "ma = UpdateCostAtIndex (manager st) (j - 1) False"
    define mb where "mb = UpdateCostAtIndex ma j False"
    define mc where "mc = PushInterval mb (costs mb ! nat (j - 1) + offset_cost st1) j len_j"
    have ga: "good N pos m0 ma"
    proof (cases "pos \<le> j - 1")
      case True
      then show ?thesis unfolding ma_def by (rule UpdateCostAtIndex_good[OF g])
    next
      case False
      then have "j = i" "\<not> pos < i" using j(1) i(2) by simp_all
      then show ?thesis using s g by (simp add: ma_def)
    qed
    have gb: "good N pos m0 mb"
      unfolding mb_def by (rule UpdateCostAtIndex_good[OF ga]) (use i j in simp)
    have cb: "\<forall>ci \<in> set (cache_intervals mb). 0 \<le> c_start ci \<and> 0 \<le> c_end ci"
      using c gb by (simp add: good_def)
    have gc: "good N pos m0 mc"
      unfolding mc_def by (rule PushInterval_good[OF gb _ _ j(2) cb]) (use i j in simp_all)
    have "manager (dp_copy env xsize cm hash_chain i prev offset len st) = mc"
      using \<open>\<not> offset \<noteq> offset_prev st\<close> True f
      by (simp add: dp_copy_def Let_def st1_def[symmetric] m1 ma_def mb_def mc_def)
    then show ?thesis using gc by simp
  qed
qed

lemma dp_step_manager:
  "manager (dp_step env xsize argb ucc cm hc i st) =
     UpdateCostAtIndex
       (manager (if 2 \<le> snd (hc i)
                 then dp_copy env xsize cm hc i (costs (manager st) ! nat (i - 1)) (fst (hc i))
                        (snd (hc i))
                        (dp_literal env argb ucc cm i (costs (manager st) ! nat (i - 1)) st)
                 else dp_literal env argb ucc cm i (costs (manager st) ! nat (i - 1)) st))
       i True"
  by (simp add: dp_step_def Let_def split: prod.split)

lemma dp_step_hashers:
  "hashers (dp_step env xsize argb ucc cm hc i st) =
     hashers (dp_literal env argb ucc cm i (costs (manager st) ! nat (i - 1)) st)"
proof -
  have "hashers (dp_copy env xsize cm hc i prev offset len st') = hashers st'"
    for prev offset len st'
    by (simp add: dp_copy_def Let_def split: prod.split)
  then show ?thesis by (simp add: dp_step_def Let_def split: prod.split)
qed

text \<open>
  Iteration \<open>i\<close> keeps \<open>good\<close> (with the same reservation for the pixels before \<open>i\<close>),
  and leaves at pixel \<open>i\<close> at most the cost at \<open>i - 1\<close> plus the literal edge.
\<close>

lemma dp_step_good:
  assumes g: "good N pos m0 (manager st)" and i: "1 \<le> i" "pos \<le> i"
    and s: "pos < i \<or>
            (\<forall>c. UpdateCostAtIndex (UpdateCost (manager st) i i c) (i - 1) False =
                  UpdateCost (manager st) i i c)"
    and hc: "\<forall>x. snd (hash_chain x) \<le> 65535"
    and c: "\<forall>ci \<in> set (cache_intervals m0). 0 \<le> c_start ci \<and> 0 \<le> c_end ci"
  shows "good N pos m0 (manager (dp_step env xsize argb ucc cm hash_chain i st))"
    and "nat i < N \<Longrightarrow>
         costs (manager (dp_step env xsize argb ucc cm hash_chain i st)) ! nat i \<le>
           costs (manager st) ! nat (i - 1) + literal_edge env cm ucc (hashers st) (argb ! nat i)"
proof -
  define prev where "prev = costs (manager st) ! nat (i - 1)"
  define cand where "cand = prev + literal_edge env cm ucc (hashers st) (argb ! nat i)"
  define st1 where "st1 = dp_literal env argb ucc cm i prev st"
  define st2 where "st2 = (if 2 \<le> snd (hash_chain i)
                 then dp_copy env xsize cm hash_chain i prev (fst (hash_chain i))
                        (snd (hash_chain i)) st1
                 else st1)"
  have m1: "manager st1 = UpdateCost (manager st) i i cand"
    by (simp add: st1_def cand_def dp_literal_manager)
  have fin: "manager (dp_step env xsize argb ucc cm hash_chain i st) =
               UpdateCostAtIndex (manager st2) i True"
    by (simp add: dp_step_manager st2_def st1_def prev_def)
  have step: "good N pos m (UpdateCostAtIndex (manager st2) i True)"
    if g1: "good N pos m (manager st1)" and cm: "cache_intervals m = cache_intervals m0" for m
  proof -
    have c': "\<forall>ci \<in> set (cache_intervals m). 0 \<le> c_start ci \<and> 0 \<le> c_end ci"
      using c cm by simp
    have s1: "pos < i \<or> UpdateCostAtIndex (manager st1) (i - 1) False = manager st1"
      using s unfolding m1 by blast
    have "good N pos m (manager st2)"
    proof (cases "2 \<le> snd (hash_chain i)")
      case True
      then show ?thesis
        using dp_copy_good[OF g1 i s1 hc _ c', of "snd (hash_chain i)" env xsize cm prev
            "fst (hash_chain i)"] hc
        by (simp add: st2_def)
    next
      case False
      then show ?thesis using g1 by (simp add: st2_def)
    qed
    then show ?thesis by (rule UpdateCostAtIndex_good) (rule i(2))
  qed
  have g1: "good N pos m0 (manager st1)"
    unfolding m1 by (rule good_UpdateCost[OF g]) (use i in simp_all)
  show "good N pos m0 (manager (dp_step env xsize argb ucc cm hash_chain i st))"
    unfolding fin by (rule step[OF g1 refl])
  assume iN: "nat i < N"
  have r: "good N pos (manager st1) (manager st1)"
    using g1 by (simp add: good_def)
  have cm1: "cache_intervals (manager st1) = cache_intervals m0"
    using g1 by (simp add: good_def)
  from step[OF r cm1] iN
  have "costs (UpdateCostAtIndex (manager st2) i True) ! nat i \<le> costs (manager st1) ! nat i"
    by (simp add: good_def)
  moreover have "length (costs (manager st)) = N" using g by (simp add: good_def costs_ok_def)
  then have "costs (manager st1) ! nat i \<le> cand"
    unfolding m1 using iN by (simp add: UpdateCost_costs_nth)
  ultimately show "costs (manager (dp_step env xsize argb ucc cm hash_chain i st)) ! nat i \<le>
           costs (manager st) ! nat (i - 1) + literal_edge env cm ucc (hashers st) (argb ! nat i)"
    unfolding fin by (simp add: cand_def prev_def)
qed

subsection \<open>The loop over the pixels\<close>

text \<open>
  What holds of the manager when iteration \<open>i\<close> begins, for an image of \<open>N\<close> pixels whose
  literal edges cost at most \<open>L\<close>: the manager is well formed, and every pixel \<open>j\<close> before
  \<open>i\<close> has a cost of at most \<open>(j + 1) * L\<close>.
\<close>

definition dp_inv :: "nat \<Rightarrow> int \<Rightarrow> int \<Rightarrow> CostManager \<Rightarrow> bool" where
  "dp_inv N L i m =
     (costs_ok N m \<and> nodes_ok m \<and>
      (\<forall>ci \<in> set (cache_intervals m). 0 \<le> c_start ci \<and> 0 \<le> c_end ci) \<and>
      (\<forall>j < N. int j < i \<longrightarrow> costs m ! j \<le> (int j + 1) * L))"

lemma dp_loop_unfold:
  "dp_loop env xsize argb ucc cm hc i pix_count st =
     (if i < pix_count
      then dp_loop env xsize argb ucc cm hc (i + 1) pix_count
             (dp_step env xsize argb ucc cm hc i st)
      else st)"
  by (subst dp_loop.simps) simp

lemma dp_step_inv:
  assumes inv: "dp_inv N L i (manager st)" and i: "1 \<le> i" "nat i < N"
    and hc: "\<forall>x. snd (hash_chain x) \<le> 65535"
    and edge: "\<forall>h c. literal_edge env cm ucc h c \<le> L"
  shows "dp_inv N L (i + 1) (manager (dp_step env xsize argb ucc cm hash_chain i st))"
proof -
  let ?m = "manager st"
  let ?m' = "manager (dp_step env xsize argb ucc cm hash_chain i st)"
  have g0: "good N 0 ?m ?m" using inv by (simp add: dp_inv_def good_def)
  have c: "\<forall>ci \<in> set (cache_intervals ?m). 0 \<le> c_start ci \<and> 0 \<le> c_end ci"
    using inv by (simp add: dp_inv_def)
  have p: "(0::int) \<le> i" "(0::int) < i \<or>
            (\<forall>c. UpdateCostAtIndex (UpdateCost ?m i i c) (i - 1) False = UpdateCost ?m i i c)"
    using i by simp_all
  note s = dp_step_good[OF g0 i(1) p hc c, of env xsize argb ucc cm]
  have g: "good N 0 ?m ?m'" by (rule s(1))
  have le: "costs ?m' ! nat i \<le> costs ?m ! nat (i - 1) + literal_edge env cm ucc (hashers st) (argb ! nat i)"
    by (rule s(2)[OF i(2)])
  have prev: "costs ?m ! nat (i - 1) \<le> i * L"
  proof -
    have "nat (i - 1) < N" "int (nat (i - 1)) < i" using i by simp_all
    with inv have "costs ?m ! nat (i - 1) \<le> (int (nat (i - 1)) + 1) * L"
      unfolding dp_inv_def by blast
    then show ?thesis using i by simp
  qed
  have new: "costs ?m' ! nat i \<le> (i + 1) * L"
    using le prev edge[rule_format, of "hashers st" "argb ! nat i"] by (simp add: algebra_simps)
  have old: "costs ?m' ! j \<le> (int j + 1) * L" if "j < N" "int j < i + 1" for j
  proof (cases "int j < i")
    case True
    have "costs ?m' ! j \<le> costs ?m ! j" using g that(1) by (simp add: good_def)
    moreover have "costs ?m ! j \<le> (int j + 1) * L" using inv that(1) True by (simp add: dp_inv_def)
    ultimately show ?thesis by simp
  next
    case False
    then have "j = nat i" using that(2) by simp
    then show ?thesis using new i by simp
  qed
  show ?thesis
    unfolding dp_inv_def using g c old by (simp add: good_def)
qed

lemma dp_loop_inv:
  assumes "dp_inv N L i (manager st)" "1 \<le> i" "pix_count \<le> int N"
    and "\<forall>x. snd (hash_chain x) \<le> 65535"
    and "\<forall>h c. literal_edge env cm ucc h c \<le> L"
  shows "dp_inv N L (max i pix_count)
           (manager (dp_loop env xsize argb ucc cm hash_chain i pix_count st))"
  using assms
proof (induction env xsize argb ucc cm hash_chain i pix_count st rule: dp_loop.induct)
  case (1 env xsize argb ucc cm hash_chain i pix_count st)
  show ?case
  proof (cases "i < pix_count")
    case False
    then show ?thesis using "1.prems"(1) by (subst dp_loop_unfold) (simp add: max_def)
  next
    case True
    then have iN: "nat i < N" using "1.prems"(2,3) by simp
    have s: "dp_inv N L (i + 1) (manager (dp_step env xsize argb ucc cm hash_chain i st))"
      by (rule dp_step_inv[OF "1.prems"(1,2) iN "1.prems"(4,5)])
    have "dp_inv N L (max (i + 1) pix_count)
           (manager (dp_loop env xsize argb ucc cm hash_chain (i + 1) pix_count
                      (dp_step env xsize argb ucc cm hash_chain i st)))"
      by (rule "1.IH"[OF True s _ "1.prems"(3,4,5)]) (use "1.prems"(2) in simp)
    moreover have "max (i + 1) pix_count = max i pix_count" using True by simp
    ultimately show ?thesis using True by (subst dp_loop_unfold) simp
  qed
qed

text \<open>The state in which the loop is entered.\<close>

lemma dp_init_inv:
  assumes init: "CostManagerInit env a b m0 d pix_count cm = Some m"
    and len: "length d = nat pix_count"
    and edge: "\<forall>h c. literal_edge env cm ucc h c \<le> L"
    and L: "pix_count * L < WEBP_INT64_MAX"
    and st0: "manager st0 = m\<lparr>dist_array := (dist_array m)[0 := 0]\<rparr>"
  shows "dp_inv (nat pix_count) L 1 (manager (dp_literal env argb ucc cm 0 0 st0))"
proof -
  define N where "N = nat pix_count"
  note f = CostManagerInit_Some[OF init]
  let ?m0 = "manager st0"
  have h: "head ?m0 = []" "costs ?m0 = replicate N WEBP_INT64_MAX"
    "length (dist_array ?m0) = N" "cache_intervals ?m0 = cache_intervals m"
    using f len by (simp_all add: st0 N_def)
  have co: "costs_ok N ?m0" using h by (simp add: costs_ok_def)
  have no: "nodes_ok ?m0" using h by (simp add: nodes_ok_def)
  have c: "\<forall>ci \<in> set (cache_intervals ?m0). 0 \<le> c_start ci \<and> 0 \<le> c_end ci"
    unfolding h(4) by (rule cache_tiles_nonneg[OF f(5)]) simp
  define cand where "cand = 0 + literal_edge env cm ucc (hashers st0) (argb ! nat 0)"
  have m1: "manager (dp_literal env argb ucc cm 0 0 st0) = UpdateCost ?m0 0 0 cand"
    by (simp add: dp_literal_manager cand_def)
  have g: "good N 0 ?m0 (UpdateCost ?m0 0 0 cand)"
    by (rule good_UpdateCost[OF good_refl[OF co no]]) simp_all
  have "costs (UpdateCost ?m0 0 0 cand) ! 0 \<le> (int 0 + 1) * L" if "0 < N"
  proof -
    have "cand \<le> L" using edge by (simp add: cand_def)
    moreover have "L < WEBP_INT64_MAX"
    proof (cases "0 \<le> L")
      case True
      have "1 \<le> pix_count" using that by (simp add: N_def)
      then have "1 * L \<le> pix_count * L" using True by (intro mult_right_mono) simp_all
      then show ?thesis using L by simp
    next
      case False
      then show ?thesis by (simp add: WEBP_INT64_MAX_def)
    qed
    ultimately show ?thesis using that h(2) by (simp add: UpdateCost_costs_nth)
  qed
  then have "\<forall>j < N. int j < 1 \<longrightarrow> costs (UpdateCost ?m0 0 0 cand) ! j \<le> (int j + 1) * L"
    by auto
  then show ?thesis
    unfolding m1 dp_inv_def N_def[symmetric] using g c by (simp add: good_def)
qed

lemma dp_inv_final:
  assumes "dp_inv N L i m" "int N \<le> i" "int N * L < WEBP_INT64_MAX" "j < N"
  shows "costs m ! j < WEBP_INT64_MAX \<and> 1 \<le> dist_array m ! j \<and> dist_array m ! j \<le> j + 1"
proof -
  have b: "costs m ! j \<le> (int j + 1) * L" using assms(1,2,4) by (simp add: dp_inv_def)
  have "(int j + 1) * L < WEBP_INT64_MAX"
  proof (cases "0 \<le> L")
    case True
    have "int j + 1 \<le> int N" using assms(4) by simp
    then have "(int j + 1) * L \<le> int N * L" using True by (rule mult_right_mono)
    then show ?thesis using assms(3) by simp
  next
    case False
    then have "(int j + 1) * L \<le> 0" by (simp add: mult_nonneg_nonpos)
    then show ?thesis by (simp add: WEBP_INT64_MAX_def)
  qed
  then have "costs m ! j < WEBP_INT64_MAX" using b by simp
  then show ?thesis using assms(1,4) by (simp add: dp_inv_def costs_ok_def)
qed

subsection \<open>Claim C2\<close>

text \<open>
  Claim C2. Let \<^verbatim>\<open>BackwardReferencesHashChainDistanceOnly\<close> return \<open>1\<close> on an image of
  \<open>N = xsize * ysize\<close> pixels, \<^verbatim>\<open>dist_array\<close> having \<open>N\<close> entries. Then the loop over the
  pixels was run, the function hands back the \<^verbatim>\<open>dist_array\<close> the loop has left, and for
  every \<open>i\<close> in \<open>[0, N)\<close> the cost \<open>costs[i]\<close> is strictly below \<^verbatim>\<open>WEBP_INT64_MAX\<close> and
  \<open>1 \<le> dist_array[i] \<le> i + 1\<close>.

  Costs are integers here, and \<^verbatim>\<open>dist_array\<close> holds 16-bit values; the statement is
  for runs without overflow: the hash chain gives no length above \<open>65535\<close> (in libwebp
  it gives at most \<^verbatim>\<open>MAX_LENGTH = 4095\<close>), and \<open>N\<close> literal edges, each of which costs at
  most \<open>L\<close> under the cost model \<open>cost_model\<close> that \<^verbatim>\<open>CostModelBuild\<close> has produced, stay
  below \<^verbatim>\<open>WEBP_INT64_MAX\<close>.
\<close>

theorem BackwardReferencesHashChainDistanceOnly_costs_finite:
  assumes ok: "fst (BackwardReferencesHashChainDistanceOnly env out xsize ysize argb cache_bits
                      hash_chain dist_array0)"
    and len: "length dist_array0 = nat (xsize * ysize)"
    and hc: "\<forall>x. snd (hash_chain x) \<le> 65535"
    and cm: "cost_model_build out = Some cost_model"
    and edge: "\<forall>h c. literal_edge env cost_model (cache_bits > 0) h c \<le> L"
    and L: "xsize * ysize * L < WEBP_INT64_MAX"
  shows "\<exists>st. distance_only_loop env out xsize ysize argb cache_bits hash_chain dist_array0
                = Some st \<and>
              snd (BackwardReferencesHashChainDistanceOnly env out xsize ysize argb cache_bits
                     hash_chain dist_array0) = dist_array (manager st) \<and>
              length (costs (manager st)) = nat (xsize * ysize) \<and>
              length (dist_array (manager st)) = nat (xsize * ysize) \<and>
              (\<forall>i < nat (xsize * ysize).
                 costs (manager st) ! i < WEBP_INT64_MAX \<and>
                 1 \<le> dist_array (manager st) ! i \<and> dist_array (manager st) ! i \<le> i + 1)"
proof -
  define N where "N = nat (xsize * ysize)"
  define ucc where "ucc = (cache_bits > 0)"
  obtain st where st: "distance_only_loop env out xsize ysize argb cache_bits hash_chain
      dist_array0 = Some st"
    using ok by (cases "distance_only_loop env out xsize ysize argb cache_bits hash_chain
      dist_array0") (simp_all add: BackwardReferencesHashChainDistanceOnly_def)
  have r: "snd (BackwardReferencesHashChainDistanceOnly env out xsize ysize argb cache_bits
                     hash_chain dist_array0) = dist_array (manager st)"
    by (simp add: BackwardReferencesHashChainDistanceOnly_def st)
  from st cm obtain m where init: "CostManagerInit env (cache_intervals_alloc out) (costs_alloc out)
                          (calloc_manager env (interval_allocs out)) dist_array0 (xsize * ysize)
                          cost_model = Some m"
    unfolding distance_only_loop_def distance_only_upto_def Let_def
    by (auto split: if_splits option.splits)
  define st0 where "st0 = \<lparr>manager = m\<lparr>dist_array := (dist_array m)[0 := 0]\<rparr>,
                                  hashers = (if ucc then the (color_cache_init out)
                                             else uninitialized_cache out),
                                  offset_prev = - 1, len_prev = - 1, offset_cost = - 1,
                                  first_offset_is_constant = - 1, reach = 0\<rparr>"
  have eq: "st = dp_loop env xsize argb ucc cost_model hash_chain 1 (xsize * ysize)
                   (dp_literal env argb ucc cost_model 0 0 st0)"
    using st cm init unfolding distance_only_loop_def distance_only_upto_def Let_def st0_def ucc_def
    by (auto split: if_splits)
  have i1: "dp_inv N L 1 (manager (dp_literal env argb ucc cost_model 0 0 st0))"
    unfolding N_def
    by (rule dp_init_inv[OF init len _ L]) (use edge in \<open>simp_all add: ucc_def st0_def\<close>)
  have pc: "xsize * ysize \<le> int N" by (simp add: N_def)
  have fin: "dp_inv N L (max 1 (xsize * ysize)) (manager st)"
    unfolding eq
    by (rule dp_loop_inv[OF i1 _ pc hc]) (use edge in \<open>simp_all add: ucc_def\<close>)
  have b: "int N \<le> max 1 (xsize * ysize)" "int N * L < WEBP_INT64_MAX"
  proof -
    show "int N \<le> max 1 (xsize * ysize)" by (simp add: N_def)
    show "int N * L < WEBP_INT64_MAX"
    proof (cases "0 \<le> xsize * ysize")
      case True
      then show ?thesis using L by (simp add: N_def)
    next
      case False
      then show ?thesis by (simp add: N_def WEBP_INT64_MAX_def)
    qed
  qed
  have l: "length (costs (manager st)) = N" "length (dist_array (manager st)) = N"
    using fin by (simp_all add: dp_inv_def costs_ok_def)
  show ?thesis
    using st r l dp_inv_final[OF fin b] unfolding N_def[symmetric] by blast
qed

subsection \<open>A run of the pass\<close>

text \<open>
  A small instance: a colour cache of four slots (\<open>cache_bits = 2\<close>) indexed as
  \<^verbatim>\<open>VP8LHashPix\<close> does, \<^verbatim>\<open>DivRound\<close> on the non-negative values the pass gives it,
  stand-ins for the prefix coder and the plane code, a cost model whose entries are all
  \<open>10\<close> (\<open>7\<close> for distances), and the hash chain of an image of sixteen equal pixels in
  one row: every pixel after the first repeats its predecessor to the end of the row.
\<close>

definition example_key :: "uint32_t \<Rightarrow> nat" where
  "example_key c = unat (drop_bit 30 (c * 0x1e35a7bd))"

definition example_env :: "uint32_t list Collab" where
  "example_env =
     \<lparr>cc_contains = (\<lambda>h c. if h ! example_key c = c then int (example_key c) else - 1),
      cc_insert = (\<lambda>h c. h[example_key c := c]),
      div_round = (\<lambda>a b. (a + b div 2) div b),
      num_length_codes = 24,
      prefix_encode_bits = (\<lambda>v. (int (unat v) div 4, int (unat v) mod 4)),
      log_2_precision_bits = 2,
      distance_to_plane_code = (\<lambda>x d. d),
      max_length = 20\<rparr>"

definition example_cost_model :: CostModel where
  "example_cost_model =
     \<lparr>alpha = replicate 256 10, red = replicate 256 10, blue = replicate 256 10,
      distance = replicate 40 7, literal = replicate 284 10\<rparr>"

definition example_outcomes :: "uint32_t list Outcomes" where
  "example_outcomes =
     \<lparr>cost_model_alloc = True, cost_manager_alloc = True,
      color_cache_init = Some [0, 0, 0, 0], uninitialized_cache = [],
      cost_model_build = Some example_cost_model, cache_intervals_alloc = True,
      costs_alloc = True, interval_allocs = [Some 10, None, Some 11], refs_error = False\<rparr>"

definition example_hash_chain :: "int \<Rightarrow> int \<times> int" where
  "example_hash_chain i = (if 1 \<le> i \<and> i < 16 then (1, 16 - i) else (0, 0))"

text \<open>
  With \<^verbatim>\<open>DivRound\<close> as in \<^verbatim>\<open>utils.h\<close> no literal edge costs more than \<open>14087492728\<close>,
  whatever the cost model: its entries are \<^verbatim>\<open>uint32_t\<close>.
\<close>

lemma literal_edge_bound:
  assumes "\<And>a. 0 \<le> a \<Longrightarrow> div_round env a 100 = (a + 50) div 100"
  shows "literal_edge env cm ucc h c \<le> 14087492728"
proof -
  have u: "0 \<le> uint w \<and> uint w \<le> 4294967295" for w :: uint32_t
    using uint_lt2p[of w] by simp
  have l: "0 \<le> GetLiteralCost cm c" "GetLiteralCost cm c \<le> 17179869180"
    unfolding GetLiteralCost_def
    using u[of "alpha cm ! unat (drop_bit 24 c)"]
      u[of "red cm ! unat (and (drop_bit 16 c) 0xff)"]
      u[of "literal cm ! unat (and (drop_bit 8 c) 0xff)"]
      u[of "blue cm ! unat (and c 0xff)"]
    by simp_all
  have g: "0 \<le> GetCacheCost n cm ix" "GetCacheCost n cm ix \<le> 4294967295" for n ix
    unfolding GetCacheCost_def Let_def
    using u[of "literal cm ! (VALUES_IN_BYTE + n + unat ix)"] by simp_all
  have a: "div_round env (GetLiteralCost cm c * 82) 100 \<le> 14087492728"
  proof -
    have "div_round env (GetLiteralCost cm c * 82) 100 = (GetLiteralCost cm c * 82 + 50) div 100"
      using l(1) by (intro assms) simp
    also have "\<dots> \<le> (17179869180 * 82 + 50) div 100"
      using l(2) by (intro zdiv_mono1) simp_all
    finally show ?thesis by simp
  qed
  have b: "div_round env (GetCacheCost n cm ix * 68) 100 \<le> 14087492728" for n ix
  proof -
    have "div_round env (GetCacheCost n cm ix * 68) 100 = (GetCacheCost n cm ix * 68 + 50) div 100"
      using g(1)[of n ix] by (intro assms) simp
    also have "\<dots> \<le> (4294967295 * 68 + 50) div 100"
      using g(2)[of n ix] by (intro zdiv_mono1) simp_all
    finally show ?thesis by simp
  qed
  show ?thesis unfolding literal_edge_def Let_def using a b by simp
qed

theorem BackwardReferencesHashChainDistanceOnly_costs_finite_witness:
  "snd (BackwardReferencesHashChainDistanceOnly example_env example_outcomes 16 1
          (replicate 16 0xFF808080) 2 example_hash_chain (replicate 16 99))
     = [1, 1, 1, 1, 1, 5, 6, 7, 8, 9, 10, 11, 12, 13, 14, 15] \<and>
   (\<exists>st. distance_only_loop example_env example_outcomes 16 1
            (replicate 16 0xFF808080) 2 example_hash_chain (replicate 16 99) = Some st \<and>
         costs (manager st) ! 15 < WEBP_INT64_MAX \<and>
         1 \<le> dist_array (manager st) ! 15 \<and> dist_array (manager st) ! 15 \<le> 15 + 1)"
proof -
  have ok: "fst (BackwardReferencesHashChainDistanceOnly example_env example_outcomes 16 1
                   (replicate 16 0xFF808080) 2 example_hash_chain (replicate 16 99))"
    by code_simp
  have r: "snd (BackwardReferencesHashChainDistanceOnly example_env example_outcomes 16 1
          (replicate 16 0xFF808080) 2 example_hash_chain (replicate 16 99))
     = [1, 1, 1, 1, 1, 5, 6, 7, 8, 9, 10, 11, 12, 13, 14, 15]"
    by code_simp
  have len: "length (replicate 16 (99::nat)) = nat (16 * 1)" by simp
  have hc: "\<forall>x. snd (example_hash_chain x) \<le> 65535" by (simp add: example_hash_chain_def)
  have cm: "cost_model_build example_outcomes = Some example_cost_model"
    by (simp add: example_outcomes_def)
  have edge: "\<forall>h c. literal_edge example_env example_cost_model ((2::int) > 0) h c
                     \<le> 14087492728"
    by (intro allI literal_edge_bound) (simp add: example_env_def)
  have L: "(16::int) * 1 * 14087492728 < WEBP_INT64_MAX" by (simp add: WEBP_INT64_MAX_def)
  from BackwardReferencesHashChainDistanceOnly_costs_finite[OF ok len hc cm edge L]
  obtain st where st: "distance_only_loop example_env example_outcomes 16 1
            (replicate 16 0xFF808080) 2 example_hash_chain (replicate 16 99) = Some st"
    and b: "\<forall>i < nat (16 * 1). costs (manager st) ! i < WEBP_INT64_MAX \<and>
                 1 \<le> dist_array (manager st) ! i \<and> dist_array (manager st) ! i \<le> i + 1"
    by blast
  have "costs (manager st) ! 15 < WEBP_INT64_MAX \<and>
         1 \<le> dist_array (manager st) ! 15 \<and> dist_array (manager st) ! 15 \<le> 15 + 1"
    using b[rule_format, of 15] by simp
  then show ?thesis using st r by blast
qed

end
